theory Spec2Isabelle
  imports Main "HOL-Library.Word" "HOL-Library.Sublist"
begin

unbundle bit_operations_syntax

section \<open>Strings and machine integers of mtproto_parser.c\<close>

text \<open>
  A C \<open>char\<close> is one byte, a HOL \<open>char\<close>. A \<open>const char *\<close> argument is modelled by the
  bytes that lie at the pointer; the C string it denotes ends before the first NUL byte,
  and the end of the list stands for the terminating NUL as well.
\<close>

definition NUL :: char where
  "NUL = CHR 0x00"

definition c_str :: "string \<Rightarrow> string" where
  "c_str s = takeWhile (\<lambda>c. c \<noteq> NUL) s"

definition strlen :: "string \<Rightarrow> nat" where
  "strlen s = length (c_str s)"

text \<open>\<open>s[i]\<close> for a NUL-terminated string: the terminator is read at its end.\<close>

definition char_at :: "string \<Rightarrow> nat \<Rightarrow> char" where
  "char_at s i = (if i < length s then s ! i else NUL)"

text \<open>
  The cast \<open>(uint64_t)(*p)\<close> of a plain \<open>char\<close>: the C implementation decides whether
  \<open>char\<close> is signed (the value is sign-extended, as with gcc on x86-64) or
  unsigned (zero-extended). Both agree on bytes below \<open>0x80\<close>.
\<close>

definition char_to_uint64 :: "bool \<Rightarrow> char \<Rightarrow> 64 word" where
  "char_to_uint64 char_is_signed c =
     (if char_is_signed then scast (of_char c :: 8 word) else ucast (of_char c :: 8 word))"

section \<open>compute_hash\<close>

definition FNV_OFFSET :: "64 word" where
  "FNV_OFFSET = 14695981039346656037"

definition FNV_PRIME :: "64 word" where
  "FNV_PRIME = 1099511628211"

text \<open>\<open>for (const char* p = s; *p; p++) hash = (hash ^ (uint64_t)(*p)) * 1099511628211ULL;\<close>\<close>

fun hash_string :: "bool \<Rightarrow> 64 word \<Rightarrow> string \<Rightarrow> 64 word" where
  "hash_string sg hash [] = hash"
| "hash_string sg hash (c # p) =
     (if c = NUL then hash
      else hash_string sg ((hash XOR char_to_uint64 sg c) * FNV_PRIME) p)"

text \<open>\<open>for (int i = 0; i < 64 && secret[i]; i++) hash = (hash ^ (uint64_t)(secret[i])) * ...;\<close>\<close>

function hash_secret :: "bool \<Rightarrow> 64 word \<Rightarrow> string \<Rightarrow> nat \<Rightarrow> 64 word" where
  "hash_secret sg hash secret i =
     (if i < 64 \<and> char_at secret i \<noteq> NUL
      then hash_secret sg ((hash XOR char_to_uint64 sg (char_at secret i)) * FNV_PRIME) secret (i + 1)
      else hash)"
  by pat_completeness auto
termination
  by (relation "measure (\<lambda>(sg, hash, secret, i). 64 - i)") auto

declare hash_secret.simps [simp del]

definition compute_hash :: "bool \<Rightarrow> string \<Rightarrow> string \<Rightarrow> string \<Rightarrow> 64 word" where
  "compute_hash sg server port secret =
     (let hash = FNV_OFFSET;
          hash = hash_string sg hash server;
          hash = (hash XOR 58) * FNV_PRIME;
          hash = hash_string sg hash port;
          hash = (hash XOR 58) * FNV_PRIME
      in hash_secret sg hash secret 0)"

text \<open>
  The digest as the specification words it: starting from the seed, every byte in turn
  is XOR-ed into the accumulator, which is then multiplied by the FNV prime.
\<close>

definition fnv1a :: "64 word list \<Rightarrow> 64 word" where
  "fnv1a bs = foldl (\<lambda>h b. (h XOR b) * 0x100000001b3) 0xcbf29ce484222325 bs"

definition hashed_bytes :: "string \<Rightarrow> string \<Rightarrow> string \<Rightarrow> string" where
  "hashed_bytes server port secret =
     c_str server @ '':'' @ c_str port @ '':'' @ take 64 (c_str secret)"


section \<open>sanitize_string\<close>

text \<open>
  The function rewrites its buffer in place with a read pointer and a write pointer that
  never overtakes it; the model keeps the bytes still to be read, the bytes written so
  far (\<open>write_ptr > str\<close> is \<open>out \<noteq> []\<close>) and \<open>space_flag\<close>.
\<close>

fun sanitize_loop :: "string \<Rightarrow> string \<Rightarrow> bool \<Rightarrow> string" where
  "sanitize_loop [] out space_flag = out"
| "sanitize_loop (c # read_ptr) out space_flag =
     (if c = NUL then out
      else if 0x20 \<le> (of_char c :: nat) \<and> (of_char c :: nat) < 0x7F then
        (if c = CHR '' '' \<or> c = CHR 0x09 \<or> c = CHR 0x0A \<or> c = CHR 0x0D then
           (if \<not> space_flag \<and> out \<noteq> []
            then sanitize_loop read_ptr (out @ [CHR '' '']) True
            else sanitize_loop read_ptr out space_flag)
         else sanitize_loop read_ptr (out @ [c]) False)
      else sanitize_loop read_ptr out space_flag)"

text \<open>\<open>while (write_ptr > str && (*(write_ptr-1) == ' ' || *(write_ptr-1) == '\t')) *(--write_ptr) = '\0';\<close>\<close>

function trim_loop :: "string \<Rightarrow> string" where
  "trim_loop out =
     (if out \<noteq> [] \<and> (last out = CHR '' '' \<or> last out = CHR 0x09)
      then trim_loop (butlast out) else out)"
  by pat_completeness auto
termination
  by (relation "measure length") auto

declare trim_loop.simps [simp del]

definition sanitize_string :: "string \<Rightarrow> string" where
  "sanitize_string str = trim_loop (sanitize_loop str [] False)"

text \<open>The vocabulary of the specification's sentence on normalisation.\<close>

definition printable :: "char \<Rightarrow> bool" where
  "printable c = (0x20 \<le> (of_char c :: nat) \<and> (of_char c :: nat) < 0x7F)"

definition whitespace :: "char \<Rightarrow> bool" where
  "whitespace c = (c = CHR '' '' \<or> c = CHR 0x09 \<or> c = CHR 0x0D \<or> c = CHR 0x0A)"

fun collapse_whitespace :: "string \<Rightarrow> string" where
  "collapse_whitespace [] = []"
| "collapse_whitespace [c] = [if whitespace c then CHR '' '' else c]"
| "collapse_whitespace (c # d # cs) =
     (if whitespace c
      then (if whitespace d then collapse_whitespace (d # cs)
            else CHR '' '' # collapse_whitespace (d # cs))
      else c # collapse_whitespace (d # cs))"

definition trim_trailing :: "string \<Rightarrow> string" where
  "trim_trailing s = rev (dropWhile whitespace (rev s))"

definition trim_leading :: "string \<Rightarrow> string" where
  "trim_leading s = dropWhile whitespace s"

text \<open>Non-printable bytes removed, whitespace runs collapsed, trailing whitespace trimmed.\<close>

definition normalized_trailing_only :: "string \<Rightarrow> string" where
  "normalized_trailing_only s =
     trim_trailing (collapse_whitespace (filter printable (c_str s)))"

text \<open>The same with both ends trimmed.\<close>

definition normalized :: "string \<Rightarrow> string" where
  "normalized s =
     trim_trailing (trim_leading (collapse_whitespace (filter printable (c_str s))))"

section \<open>validate_proxy\<close>

text \<open>
  \<open>strtol(nptr, &endptr, 10)\<close> of the C library: it skips leading white space, takes an
  optional sign and then the longest run of decimal digits. Without a digit no conversion
  is performed and \<open>endptr\<close> is \<open>nptr\<close>; a value outside \<open>long\<close> is clamped to
  \<open>LONG_MIN\<close> or \<open>LONG_MAX\<close>. The result is the value and the offset of \<open>endptr\<close>
  from \<open>nptr\<close>.
\<close>

definition isspace_c :: "char \<Rightarrow> bool" where
  "isspace_c c = (c = CHR '' '' \<or> (0x09 \<le> (of_char c :: nat) \<and> (of_char c :: nat) \<le> 0x0D))"

definition isdigit_c :: "char \<Rightarrow> bool" where
  "isdigit_c c = (0x30 \<le> (of_char c :: nat) \<and> (of_char c :: nat) \<le> 0x39)"

definition decimal_value :: "string \<Rightarrow> int" where
  "decimal_value ds = foldl (\<lambda>a d. 10 * a + (of_char d - 0x30)) 0 ds"

definition LONG_MAX :: int where
  "LONG_MAX = 2 ^ 63 - 1"

definition LONG_MIN :: int where
  "LONG_MIN = - (2 ^ 63)"

definition strtol10 :: "string \<Rightarrow> int \<times> nat" where
  "strtol10 nptr =
     (let s = c_str nptr;
          blanks = takeWhile isspace_c s;
          s1 = dropWhile isspace_c s;
          negative = (s1 \<noteq> [] \<and> hd s1 = CHR ''-'');
          has_sign = (s1 \<noteq> [] \<and> (hd s1 = CHR ''-'' \<or> hd s1 = CHR ''+''));
          s2 = (if has_sign then tl s1 else s1);
          digits = takeWhile isdigit_c s2;
          v = (if negative then - decimal_value digits else decimal_value digits)
      in if digits = [] then (0, 0)
         else (max LONG_MIN (min LONG_MAX v),
               length blanks + (if has_sign then 1 else 0) + length digits))"

text \<open>
  The loop over the secret: \<open>for (size_t i = 0; i < secret_len && i < 128; i++)\<close>, with
  its early \<open>return 0\<close> at a character that is neither a hex digit, \<open>=\<close> nor white space.
\<close>

function validate_secret_loop :: "string \<Rightarrow> nat \<Rightarrow> nat \<Rightarrow> int \<Rightarrow> int \<Rightarrow> bool" where
  "validate_secret_loop secret secret_len i valid_chars hex_chars =
     (if i < secret_len \<and> i < 128 then
        (let c = (of_char (char_at secret i) :: nat) in
         if (0x30 \<le> c \<and> c \<le> 0x39) \<or> (0x61 \<le> c \<and> c \<le> 0x66) \<or> (0x41 \<le> c \<and> c \<le> 0x46)
         then validate_secret_loop secret secret_len (i + 1) (valid_chars + 1) (hex_chars + 1)
         else if c = 0x3D
         then validate_secret_loop secret secret_len (i + 1) (valid_chars + 1) hex_chars
         else if c \<noteq> 0x20 \<and> c \<noteq> 0x09 \<and> c \<noteq> 0x0A \<and> c \<noteq> 0x0D
         then False
         else validate_secret_loop secret secret_len (i + 1) valid_chars hex_chars)
      else valid_chars \<ge> 16 \<and> hex_chars \<ge> 8)"
  by pat_completeness auto
termination
  by (relation "measure (\<lambda>(secret, secret_len, i, valid_chars, hex_chars). 128 - i)") auto

declare validate_secret_loop.simps [simp del]

text \<open>
  The arguments are never null pointers here, so the first test
  \<open>if (!server || !port || !secret) return 0;\<close> has no branch in the model.
\<close>

definition validate_proxy :: "string \<Rightarrow> string \<Rightarrow> string \<Rightarrow> bool" where
  "validate_proxy server port secret =
     (let server_len = strlen server;
          port_len = strlen port;
          secret_len = strlen secret
      in if server_len < 4 \<or> server_len > 253 then False
         else if port_len < 1 \<or> port_len > 15 then False
         else if secret_len < 16 \<or> secret_len > 511 then False
         else (let (port_value, endptr) = strtol10 port
               in if endptr = 0 \<or> char_at port endptr \<noteq> NUL \<or> port_value < 1 \<or> port_value > 65535
                  then False
                  else validate_secret_loop secret secret_len 0 0 0))"

text \<open>The acceptance condition in the specification's words.\<close>

definition hex_digit :: "char \<Rightarrow> bool" where
  "hex_digit c = (c \<in> set ''0123456789abcdefABCDEF'')"

definition secret_char :: "char \<Rightarrow> bool" where
  "secret_char c = (hex_digit c \<or> c = CHR ''='' \<or> whitespace c)"

text \<open>
  The port parses as a decimal integer between 1 and 65535 with no trailing characters.
\<close>

definition port_parses :: "string \<Rightarrow> bool" where
  "port_parses port =
     (case strtol10 port of
        (v, e) \<Rightarrow> e \<noteq> 0 \<and> e = strlen port \<and> 1 \<le> v \<and> v \<le> 65535)"

definition secret_well_formed :: "string \<Rightarrow> bool" where
  "secret_well_formed s =
     (list_all secret_char s
      \<and> 8 \<le> length (filter hex_digit s)
      \<and> 16 \<le> length (filter (\<lambda>c. hex_digit c \<or> c = CHR ''='') s))"

text \<open>The condition as claimed: the whole secret is examined.\<close>

definition accepted_as_claimed :: "string \<Rightarrow> string \<Rightarrow> string \<Rightarrow> bool" where
  "accepted_as_claimed server port secret =
     (4 \<le> strlen server \<and> strlen server \<le> 253
      \<and> port_parses port
      \<and> 16 \<le> strlen secret \<and> strlen secret \<le> 511
      \<and> secret_well_formed (c_str secret))"

text \<open>
  The condition the code decides: the port text is at most 15 characters and only the
  first 128 characters of the secret are examined.
\<close>

definition accepted :: "string \<Rightarrow> string \<Rightarrow> string \<Rightarrow> bool" where
  "accepted server port secret =
     (4 \<le> strlen server \<and> strlen server \<le> 253
      \<and> strlen port \<le> 15 \<and> port_parses port
      \<and> 16 \<le> strlen secret \<and> strlen secret \<le> 511
      \<and> secret_well_formed (take 128 (c_str secret)))"

section \<open>Proxy records and the record store\<close>

record ProxyRecord =
  server :: string
  port :: string
  secret :: string
  connection_url :: string
  source :: string
  country :: string
  type :: string
  hash_value :: "64 word"
  discovery_time :: int
  last_verified :: int
  active :: int
  verified :: int
  speed_score :: int

definition PROXY_CAPACITY :: nat where
  "PROXY_CAPACITY = 1000000"

definition PROXY_BATCH_SIZE :: nat where
  "PROXY_BATCH_SIZE = 5000"

text \<open>
  The global state the merge and the checkpoint work on: \<open>proxy_storage\<close>, of which the
  list holds the cells below the record count in index order (the cells above it hold no
  record yet), and the counters of \<open>stats\<close> they read or update. The counters are
  \<open>atomic_uint\<close>; they count stored records or fetched sources and stay far below
  \<open>2^32\<close>.
\<close>

record parser_state =
  proxy_storage :: "ProxyRecord list"
  total_proxies :: nat
  unique_proxies :: nat
  successful_proxies :: nat
  last_cycle_proxies :: nat
  processed_urls :: nat

text \<open>After \<open>calloc\<close> in \<open>main\<close> and the zero-initialised \<open>stats\<close>.\<close>

definition initial_state :: parser_state where
  "initial_state =
     \<lparr>proxy_storage = [], total_proxies = 0, unique_proxies = 0, successful_proxies = 0,
      last_cycle_proxies = 0, processed_urls = 0\<rparr>"

text \<open>The linear scans \<open>for (...) if (x[j].hash_value == h) { duplicate_found = 1; break; }\<close>.\<close>

fun hash_found :: "64 word \<Rightarrow> ProxyRecord list \<Rightarrow> bool" where
  "hash_found h [] = False"
| "hash_found h (r # rs) = (if hash_value r = h then True else hash_found h rs)"

text \<open>
  The merge loop of \<open>extract_proxies_from_content\<close>, run under \<open>storage_mutex\<close>:
  \<open>for (int i = 0; i < discovery_count && current_total < PROXY_CAPACITY; i++)\<close>.
  The assignment \<open>proxy_storage[current_total++] = discovered_proxies[i]\<close> writes the
  cell just above the records counted so far.
\<close>

fun merge_loop :: "ProxyRecord list \<Rightarrow> nat \<Rightarrow> nat \<Rightarrow> parser_state \<Rightarrow> nat \<times> nat \<times> parser_state" where
  "merge_loop [] current_total added_count st = (current_total, added_count, st)"
| "merge_loop (d # discovered) current_total added_count st =
     (if current_total < PROXY_CAPACITY then
        (if hash_found (hash_value d) (take current_total (proxy_storage st))
         then merge_loop discovered current_total added_count st
         else merge_loop discovered (current_total + 1) (added_count + 1)
                (st\<lparr>proxy_storage := take current_total (proxy_storage st) @ [d],
                    unique_proxies := unique_proxies st + 1,
                    successful_proxies := successful_proxies st + 1\<rparr>))
      else (current_total, added_count, st))"

definition merge_batch :: "parser_state \<Rightarrow> ProxyRecord list \<Rightarrow> parser_state" where
  "merge_batch st discovered =
     (if length discovered > 0 then
        (let (current_total, added_count, st1) = merge_loop discovered (total_proxies st) 0 st
         in st1\<lparr>total_proxies := current_total,
                last_cycle_proxies := last_cycle_proxies st1 + added_count\<rparr>)
      else st)"

text \<open>A sequence of batch merges, each one critical section.\<close>

definition merge_batches :: "parser_state \<Rightarrow> ProxyRecord list list \<Rightarrow> parser_state" where
  "merge_batches st batches = foldl merge_batch st batches"

text \<open>
  The store is consistent when its cells are exactly the counted ones, the count is within
  the capacity, no two cells share a hash value, and the unique-proxy counter equals the
  count.
\<close>

definition store_consistent :: "parser_state \<Rightarrow> bool" where
  "store_consistent st =
     (length (proxy_storage st) = total_proxies st
      \<and> total_proxies st \<le> PROXY_CAPACITY
      \<and> distinct (map hash_value (proxy_storage st))
      \<and> unique_proxies st = total_proxies st)"

text \<open>
  A batch is covered by the store when the store is full or already holds a record for
  each hash value of the batch.
\<close>

definition covered :: "parser_state \<Rightarrow> ProxyRecord list \<Rightarrow> bool" where
  "covered st batch =
     (total_proxies st = PROXY_CAPACITY
      \<or> hash_value ` set batch \<subseteq> hash_value ` set (proxy_storage st))"

section \<open>The extraction engine\<close>

text \<open>
  \<open>size_t\<close> and \<open>PCRE2_SIZE\<close> are 64 bits wide: their arithmetic wraps around.
  \<open>PCRE2_UNSET\<close> is \<open>~(PCRE2_SIZE)0\<close>.
\<close>

definition PCRE2_UNSET :: nat where
  "PCRE2_UNSET = 2 ^ 64 - 1"

definition size_t_sub :: "nat \<Rightarrow> nat \<Rightarrow> nat" where
  "size_t_sub a b = (a + 2 ^ 64 - b mod 2 ^ 64) mod 2 ^ 64"

definition size_t_add :: "nat \<Rightarrow> nat \<Rightarrow> nat" where
  "size_t_add a b = (a + b) mod 2 ^ 64"

text \<open>
  The pattern matcher is an external library. A compiled pattern is modelled by what
  \<open>pcre2_match\<close> answers for it on a subject of a given length from a start offset: the
  return code and the offset vector (\<open>match_vector[0]\<close> and \<open>match_vector[1]\<close> bound the
  whole match, the next three pairs bound the capture groups).
\<close>

type_synonym ovector = "nat \<Rightarrow> nat"

type_synonym pcre2_code = "string \<Rightarrow> nat \<Rightarrow> nat \<Rightarrow> int \<times> ovector"

text \<open>
  What one call of \<open>extract_proxies_from_content\<close> observes of its surroundings: whether
  plain \<open>char\<close> is signed, the value \<open>atomic_load(&program_active)\<close> and \<open>time(NULL)\<close>
  return at the call's n-th observation, whether \<open>malloc\<close> of the batch succeeds, and for
  each entry of \<open>PARSE_PATTERNS\<close> before the sentinel its compiled pattern, or \<open>None\<close>
  where \<open>pcre2_compile\<close> or \<open>pcre2_match_data_create_from_pattern\<close> fails.
\<close>

record environment =
  char_is_signed :: bool
  program_active :: "nat \<Rightarrow> bool"
  time_now :: "nat \<Rightarrow> int"
  malloc_succeeds :: bool
  compiled_patterns :: "pcre2_code option list"

text \<open>
  The batch under construction: the filled cells of \<open>discovered_proxies\<close>
  (\<open>discovery_count\<close> is their number) and the number of observations made so far.
\<close>

record batch_state =
  discovered_proxies :: "ProxyRecord list"
  observations :: nat

text \<open>
  \<open>strncpy(field, content + offset, n); field[n] = '\0';\<close> into a zero-initialised field:
  the field holds the \<open>n\<close> bytes at the offset up to their first NUL.
\<close>

definition strncpy_from :: "string \<Rightarrow> nat \<Rightarrow> nat \<Rightarrow> string" where
  "strncpy_from content offset n = c_str (take n (drop offset content))"

definition tolower_c :: "char \<Rightarrow> char" where
  "tolower_c c =
     (if 0x41 \<le> (of_char c :: nat) \<and> (of_char c :: nat) \<le> 0x5A
      then char_of ((of_char c :: nat) + 0x20) else c)"

text \<open>\<open>strncasecmp(s1, s2, n) == 0\<close>\<close>

definition strncasecmp_is_0 :: "string \<Rightarrow> string \<Rightarrow> nat \<Rightarrow> bool" where
  "strncasecmp_is_0 s1 s2 n =
     (map tolower_c (take n (c_str s1)) = map tolower_c (take n (c_str s2)))"

text \<open>
  The three prefix loops: where the field starts with the prefix, \<open>memmove\<close> drops the
  prefix and the field is sanitised again.
\<close>

fun strip_prefixes :: "string \<Rightarrow> string list \<Rightarrow> string" where
  "strip_prefixes field [] = field"
| "strip_prefixes field (pfx # rest) =
     (let prefix_len = strlen pfx in
      if strncasecmp_is_0 field pfx prefix_len
      then strip_prefixes (sanitize_string (drop prefix_len (c_str field))) rest
      else strip_prefixes field rest)"

definition field_prefixes :: "string list" where
  "field_prefixes = [''Server:'', ''server:'', ''SERVER:'', ''Host:'', ''host:'', ''HOST:'']"

definition port_prefixes :: "string list" where
  "port_prefixes = [''Port:'', ''port:'', ''PORT:'']"

definition secret_prefixes :: "string list" where
  "secret_prefixes = [''Secret:'', ''secret:'', ''SECRET:'', ''Key:'', ''key:'', ''KEY:'']"

text \<open>
  \<open>for (const char *s = new_proxy.server; *s; s++)
       if ((*s < '0' || *s > '9') && *s != '.') { is_ip = 0; break; }\<close>
\<close>

fun is_ip_loop :: "string \<Rightarrow> bool" where
  "is_ip_loop [] = True"
| "is_ip_loop (s # rest) =
     (if s = NUL then True
      else if ((of_char s :: nat) < 0x30 \<or> (of_char s :: nat) > 0x39) \<and> s \<noteq> CHR ''.'' then False
      else is_ip_loop rest)"

text \<open>\<open>snprintf\<close> into \<open>connection_url[512]\<close>: at most 511 characters are stored.\<close>

definition build_connection_url :: "string \<Rightarrow> string \<Rightarrow> string \<Rightarrow> string" where
  "build_connection_url srv prt sec =
     take 511 (''tg://proxy?server='' @ c_str srv @ ''&port='' @ c_str prt @ ''&secret='' @ c_str sec)"

text \<open>
  The body of the match loop after a successful match. A capture group is copied out of
  the content, sanitised, and freed of label prefixes:
\<close>

definition captured_field :: "string \<Rightarrow> nat \<Rightarrow> nat \<Rightarrow> string list \<Rightarrow> string" where
  "captured_field content offset n label_prefixes =
     strip_prefixes (sanitize_string (strncpy_from content offset n)) label_prefixes"

text \<open>
  The record of a validated triple; \<open>time(NULL)\<close> is read twice, for \<open>discovery_time\<close>
  and for \<open>last_verified\<close>, and \<open>strncpy\<close> keeps at most 255 bytes of the source.
\<close>

definition new_proxy_record ::
  "environment \<Rightarrow> string \<Rightarrow> nat \<Rightarrow> string \<Rightarrow> string \<Rightarrow> string \<Rightarrow> ProxyRecord" where
  "new_proxy_record env src obs srv prt sec =
     \<lparr>server = srv, port = prt, secret = sec,
      connection_url = build_connection_url srv prt sec,
      source = c_str (take 255 src),
      country = ''UN'',
      type = (if is_ip_loop srv then ''IPv4'' else ''Domain''),
      hash_value = compute_hash (char_is_signed env) srv prt sec,
      discovery_time = time_now env obs,
      last_verified = time_now env (obs + 1),
      active = 1, verified = 0, speed_score = 50\<rparr>"

text \<open>
  The record joins the batch unless a record of the batch has its hash already or the
  batch is full.
\<close>

definition add_to_batch :: "ProxyRecord \<Rightarrow> batch_state \<Rightarrow> batch_state" where
  "add_to_batch new_proxy b =
     (if hash_found (hash_value new_proxy) (discovered_proxies b) then b
      else if length (discovered_proxies b) < PROXY_BATCH_SIZE
      then b\<lparr>discovered_proxies := discovered_proxies b @ [new_proxy]\<rparr>
      else b)"

text \<open>
  The whole body: the offsets of the three groups must be set and their lengths within
  the limits; the cleaned triple must pass \<open>validate_proxy\<close>.
\<close>

definition process_match ::
  "environment \<Rightarrow> string \<Rightarrow> string \<Rightarrow> ovector \<Rightarrow> batch_state \<Rightarrow> batch_state" where
  "process_match env content src match_vector b =
     (if match_vector 2 = PCRE2_UNSET \<or> match_vector 3 = PCRE2_UNSET
         \<or> match_vector 4 = PCRE2_UNSET \<or> match_vector 5 = PCRE2_UNSET
         \<or> match_vector 6 = PCRE2_UNSET \<or> match_vector 7 = PCRE2_UNSET
      then b
      else
        (let server_length = size_t_sub (match_vector 3) (match_vector 2);
             port_length = size_t_sub (match_vector 5) (match_vector 4);
             secret_length = size_t_sub (match_vector 7) (match_vector 6)
         in if server_length > 0 \<and> server_length < 256
               \<and> port_length > 0 \<and> port_length < 16
               \<and> secret_length \<ge> 16 \<and> secret_length < 512
            then
              (let srv = captured_field content (match_vector 2) server_length field_prefixes;
                   prt = captured_field content (match_vector 4) port_length port_prefixes;
                   sec = captured_field content (match_vector 6) secret_length secret_prefixes
               in if validate_proxy srv prt sec
                  then add_to_batch (new_proxy_record env src (observations b) srv prt sec)
                         (b\<lparr>observations := observations b + 2\<rparr>)
                  else b)
            else b))"

text \<open>
  The match loop of one pattern:
  \<open>while (current_offset < content_length && discovery_count < PROXY_BATCH_SIZE
            && atomic_load(&program_active))\<close>,
  left by \<open>break\<close> when \<open>pcre2_match\<close> returns less than 4 or the next offset, one byte
  past the end of the match, reaches the end of the content. Nothing in the code bounds
  the number of rounds, so the loop is a partial function: \<open>None\<close> stands for a loop that
  never ends.
\<close>

partial_function (option) match_loop ::
  "environment \<Rightarrow> pcre2_code \<Rightarrow> string \<Rightarrow> nat \<Rightarrow> string \<Rightarrow> nat \<Rightarrow> batch_state
     \<Rightarrow> batch_state option" where
  "match_loop env compiled_pattern content content_length src current_offset b =
     (if current_offset < content_length \<and> length (discovered_proxies b) < PROXY_BATCH_SIZE
      then
        (if program_active env (observations b) then
           (let b1 = b\<lparr>observations := observations b + 1\<rparr>;
                (match_result, match_vector) =
                   compiled_pattern content content_length current_offset
            in if match_result < 4 then Some b1
               else
                 (let b2 = process_match env content src match_vector b1;
                      next_offset = size_t_add (match_vector 1) 1
                  in if next_offset \<ge> content_length then Some b2
                     else match_loop env compiled_pattern content content_length src
                            next_offset b2))
         else Some (b\<lparr>observations := observations b + 1\<rparr>))
      else Some b)"

declare match_loop.simps [code]

text \<open>
  The loop over the patterns:
  \<open>for (pattern_index = 0; PARSE_PATTERNS[pattern_index] != NULL
          && atomic_load(&program_active); pattern_index++)\<close>.
\<close>

fun pattern_loop ::
  "environment \<Rightarrow> string \<Rightarrow> nat \<Rightarrow> string \<Rightarrow> pcre2_code option list \<Rightarrow> batch_state
     \<Rightarrow> batch_state option" where
  "pattern_loop env content content_length src [] b = Some b"
| "pattern_loop env content content_length src (pattern # patterns) b =
     (if program_active env (observations b) then
        (let b1 = b\<lparr>observations := observations b + 1\<rparr> in
         case pattern of
           None \<Rightarrow> pattern_loop env content content_length src patterns b1
         | Some compiled_pattern \<Rightarrow>
             (case match_loop env compiled_pattern content content_length src 0 b1 of
                None \<Rightarrow> None
              | Some b2 \<Rightarrow> pattern_loop env content content_length src patterns b2))
      else Some (b\<lparr>observations := observations b + 1\<rparr>))"

text \<open>
  \<open>extract_proxies_from_content\<close>: the guard, the allocation of the batch, the pattern
  loop, and the merge of a non-empty batch into the store. The log lines are not part of
  the model.
\<close>

definition extract_proxies_from_content ::
  "environment \<Rightarrow> string \<Rightarrow> nat \<Rightarrow> string \<Rightarrow> parser_state \<Rightarrow> parser_state option" where
  "extract_proxies_from_content env content content_length src st =
     (if content_length = 0 \<or> \<not> program_active env 0 then Some st
      else if \<not> malloc_succeeds env then Some st
      else
        (case pattern_loop env content content_length src (compiled_patterns env)
                \<lparr>discovered_proxies = [], observations = 1\<rparr> of
           None \<Rightarrow> None
         | Some b \<Rightarrow> Some (merge_batch st (discovered_proxies b))))"

text \<open>
  A sequence of calls of \<open>extract_proxies_from_content\<close>, each with its own surroundings,
  content and source; their merges are serialised by \<open>storage_mutex\<close>.
\<close>

type_synonym extraction = "environment \<times> string \<times> nat \<times> string"

fun extractions :: "parser_state \<Rightarrow> extraction list \<Rightarrow> parser_state option" where
  "extractions st [] = Some st"
| "extractions st ((env, content, content_length, src) # rest) =
     (case extract_proxies_from_content env content content_length src st of
        None \<Rightarrow> None
      | Some st' \<Rightarrow> extractions st' rest)"

text \<open>
  What the pattern matcher guarantees for a successful match from a start offset below the
  subject length: the match ends at or after the start offset and within the subject.
\<close>

definition pcre2_contract :: "pcre2_code \<Rightarrow> string \<Rightarrow> nat \<Rightarrow> bool" where
  "pcre2_contract compiled_pattern content content_length =
     (\<forall>offset < content_length.
        case compiled_pattern content content_length offset of
          (match_result, match_vector) \<Rightarrow>
            match_result \<ge> 4 \<longrightarrow> offset \<le> match_vector 1 \<and> match_vector 1 \<le> content_length)"

text \<open>The fields every record is created with, and the validation it has passed.\<close>

definition created_well :: "ProxyRecord \<Rightarrow> bool" where
  "created_well r =
     (validate_proxy (server r) (port r) (secret r)
      \<and> country r = ''UN'' \<and> active r = 1 \<and> verified r = 0 \<and> speed_score r = 50
      \<and> type r = (if list_all (\<lambda>c. isdigit_c c \<or> c = CHR ''.'') (server r)
                   then ''IPv4'' else ''Domain''))"

subsection \<open>An example run\<close>

text \<open>
  The document \<open>Server: 1.2.3.4 Port: 443 Secret: deadbeefdeadbeefdeadbeef\<close> and what the
  first pattern of \<open>PARSE_PATTERNS\<close> matches in it: the whole text, with the three groups
  at bytes 8 to 15, 22 to 25 and 34 to 58; there is no match from a later offset.
\<close>

definition example_content :: string where
  "example_content = ''Server: 1.2.3.4 Port: 443 Secret: deadbeefdeadbeefdeadbeef''"

definition example_pattern :: pcre2_code where
  "example_pattern content content_length offset =
     (if offset = 0 then (4, \<lambda>i. [0, 58, 8, 15, 22, 25, 34, 58] ! i) else (- 1, \<lambda>i. 0))"

definition example_env :: "int \<Rightarrow> environment" where
  "example_env t =
     \<lparr>char_is_signed = True, program_active = (\<lambda>n. True), time_now = (\<lambda>n. t),
      malloc_succeeds = True, compiled_patterns = [Some example_pattern]\<rparr>"

definition example_record :: "int \<Rightarrow> ProxyRecord" where
  "example_record t =
     \<lparr>server = ''1.2.3.4'', port = ''443'', secret = ''deadbeefdeadbeefdeadbeef'',
      connection_url = ''tg://proxy?server=1.2.3.4&port=443&secret=deadbeefdeadbeefdeadbeef'',
      source = ''https://t.me/s/mtproxy'', country = ''UN'', type = ''IPv4'',
      hash_value = 12441555495511532276, discovery_time = t, last_verified = t,
      active = 1, verified = 0, speed_score = 50\<rparr>"

section \<open>The download buffer\<close>

definition BUFFER_CAPACITY :: "64 word" where
  "BUFFER_CAPACITY = 100 * 1024 * 1024"

text \<open>
  \<open>DynamicBuffer\<close>: \<open>data\<close> is \<open>None\<close> for the null pointer and otherwise holds the bytes
  stored so far in the allocated block; \<open>size\<close> and \<open>capacity\<close> are \<open>size_t\<close>. The block
  has \<open>capacity\<close> bytes.
\<close>

record DynamicBuffer =
  data :: "string option"
  size' :: "64 word"
  capacity :: "64 word"

text \<open>
  What a call of \<open>write_callback\<close> does: the value it returns, the buffer it leaves, and
  whether its \<open>memcpy\<close> and the terminating NUL stored a byte at an offset outside the
  block.
\<close>

record write_outcome =
  returned :: "64 word"
  buffer :: DynamicBuffer
  stored_beyond_capacity :: bool

text \<open>
  \<open>write_callback\<close>, with the value of \<open>program_active\<close> it reads and whether its
  \<open>realloc\<close> succeeds. The buffer pointer is never null here. \<open>realloc\<close> keeps the
  bytes that fit the new block; \<open>memcpy(buffer->data + buffer->size, content, total_size)\<close>
  and \<open>buffer->data[buffer->size] = '\0'\<close> write the offsets from the old \<open>size\<close> up to
  and including the new one.
\<close>

definition write_callback ::
  "string \<Rightarrow> 64 word \<Rightarrow> 64 word \<Rightarrow> DynamicBuffer \<Rightarrow> bool \<Rightarrow> bool \<Rightarrow> write_outcome" where
  "write_callback content element_size element_count user_buffer active_flag realloc_succeeds =
     (let total_size = element_size * element_count in
      if \<not> active_flag
      then \<lparr>returned = 0, buffer = user_buffer, stored_beyond_capacity = False\<rparr>
      else
        (let needs_growth = (size' user_buffer + total_size + 1 > capacity user_buffer);
             new_capacity = capacity user_buffer * 2;
             new_capacity = (if new_capacity < size' user_buffer + total_size + 1
                             then size' user_buffer + total_size + 1 else new_capacity);
             new_capacity = (if new_capacity > BUFFER_CAPACITY then BUFFER_CAPACITY
                             else new_capacity)
         in if needs_growth \<and> \<not> realloc_succeeds
            then \<lparr>returned = 0, buffer = user_buffer, stored_beyond_capacity = False\<rparr>
            else
              (let grown =
                     (if needs_growth
                      then user_buffer
                             \<lparr>data := Some (take (unat new_capacity)
                                              (case data user_buffer of None \<Rightarrow> [] | Some d \<Rightarrow> d)),
                              capacity := new_capacity\<rparr>
                      else user_buffer)
               in case data grown of
                    None \<Rightarrow>
                      \<lparr>returned = total_size, buffer = grown, stored_beyond_capacity = False\<rparr>
                  | Some d \<Rightarrow>
                      \<lparr>returned = total_size,
                       buffer = grown
                         \<lparr>data := Some (take (unat (size' grown)) d @ take (unat total_size) content),
                          size' := size' grown + total_size\<rparr>,
                       stored_beyond_capacity =
                         (unat (size' grown) + unat total_size + 1 > unat (capacity grown))\<rparr>)))"

text \<open>
  A buffer ten bytes short of the 100 MB ceiling, as a long response leaves it, and the
  next hundred bytes of that response.
\<close>

definition nearly_full_buffer :: DynamicBuffer where
  "nearly_full_buffer =
     \<lparr>data = Some (replicate 104857590 CHR ''a''), size' = 104857590, capacity = 104857600\<rparr>"

section \<open>The checkpoint\<close>

















section \<open>The scheduler and the shutdown\<close>

definition CONCURRENT_DOWNLOADS :: nat where
  "CONCURRENT_DOWNLOADS = 20"

text \<open>
  The main thread runs the scheduler step by step; a moment is the number of steps taken
  so far. Its surroundings give the value of \<open>program_active\<close> at every moment (the
  signal handler clears it at a moment of its own choosing), whether \<open>malloc\<close> and
  \<open>strdup\<close> of the task and \<open>pthread_create\<close> succeed for a URL, and whether the save
  interval has passed at a moment.
\<close>

record surroundings =
  flag_at :: "nat \<Rightarrow> bool"
  task_allocated :: "nat \<Rightarrow> bool"
  thread_created :: "nat \<Rightarrow> bool"
  save_due :: "nat \<Rightarrow> bool"

text \<open>
  The scheduler's state: the moment, the URL index and moment of every worker thread
  created, the counter \<open>stats.active_workers\<close> as the main thread finds it, and the
  moments at which \<open>save_proxies_to_json\<close> ran.
\<close>

record scheduler =
  moment :: nat
  launches :: "(nat \<times> nat) list"
  active_workers :: int
  checkpoints :: "nat list"

definition initial_scheduler :: scheduler where
  "initial_scheduler = \<lparr>moment = 0, launches = [], active_workers = 0, checkpoints = []\<rparr>"

text \<open>
  The launch loop of a batch:
  \<open>for (int i = 0; i < batch_size && current_url_index < url_count; i++, current_url_index++)\<close>.
  A task that cannot be allocated is skipped; the counter is raised before
  \<open>pthread_create\<close> and lowered again when it fails. The result is the URL index
  reached, the number of workers launched, and the state.
\<close>

function launch_loop ::
  "surroundings \<Rightarrow> nat \<Rightarrow> nat \<Rightarrow> nat \<Rightarrow> nat \<Rightarrow> nat \<Rightarrow> scheduler \<Rightarrow> nat \<times> nat \<times> scheduler" where
  "launch_loop w i batch_size current_url_index url_count workers_launched s =
     (if i < batch_size \<and> current_url_index < url_count then
        (if \<not> task_allocated w current_url_index
         then launch_loop w (i + 1) batch_size (current_url_index + 1) url_count workers_launched
                (s\<lparr>moment := moment s + 1\<rparr>)
         else if thread_created w current_url_index
         then launch_loop w (i + 1) batch_size (current_url_index + 1) url_count
                (workers_launched + 1)
                (s\<lparr>moment := moment s + 1,
                   launches := launches s @ [(current_url_index, moment s)],
                   active_workers := active_workers s + 1\<rparr>)
         else launch_loop w (i + 1) batch_size (current_url_index + 1) url_count workers_launched
                (s\<lparr>moment := moment s + 1,
                   active_workers := active_workers s + 1 - 1\<rparr>))
      else (current_url_index, workers_launched, s))"
  by pat_completeness auto
termination
  by (relation "measure (\<lambda>(w, i, batch_size, current_url_index, url_count, workers_launched, s).
        batch_size - i)") auto

declare launch_loop.simps [simp del]

text \<open>
  \<open>pthread_join\<close> of the workers launched: a joined worker has run \<open>url_worker\<close> to its
  end, whose last action lowers the counter.
\<close>

definition join_workers :: "nat \<Rightarrow> scheduler \<Rightarrow> scheduler" where
  "join_workers workers_launched s =
     s\<lparr>moment := moment s + 1, active_workers := active_workers s - int workers_launched\<rparr>"

text \<open>The index the launch loop reaches, as a function of its arguments.\<close>

definition launch_end :: "nat \<Rightarrow> nat \<Rightarrow> nat \<Rightarrow> nat \<Rightarrow> nat" where
  "launch_end i batch_size current_url_index url_count =
     current_url_index + min (batch_size - i) (url_count - current_url_index)"

lemma launch_loop_index:
  "fst (launch_loop w i batch_size current_url_index url_count workers_launched s) =
     launch_end i batch_size current_url_index url_count"
proof (induction w i batch_size current_url_index url_count workers_launched s
    rule: launch_loop.induct)
  case (1 w i bs cur n wl s)
  show ?case
  proof (cases "i < bs \<and> cur < n")
    case True
    then have "launch_end i bs cur n = launch_end (i + 1) bs (cur + 1) n"
      by (auto simp: launch_end_def min_def)
    with True "1.IH" show ?thesis
      by (subst launch_loop.simps) simp
  next
    case False
    then show ?thesis
      by (subst launch_loop.simps) (auto simp: launch_end_def)
  qed
qed

text \<open>
  One batch: at most \<open>CONCURRENT_DOWNLOADS\<close> launches, then the join of all workers
  launched. The result is the URL index reached and the state.
\<close>

definition one_batch :: "surroundings \<Rightarrow> nat \<Rightarrow> nat \<Rightarrow> scheduler \<Rightarrow> nat \<times> scheduler" where
  "one_batch w current_url_index url_count s =
     (let batch_size = min CONCURRENT_DOWNLOADS (url_count - current_url_index);
          launched = launch_loop w 0 batch_size current_url_index url_count 0 s
      in (fst launched, join_workers (fst (snd launched)) (snd (snd launched))))"

lemma one_batch_index:
  "current_url_index < url_count \<Longrightarrow>
   current_url_index < fst (one_batch w current_url_index url_count s)
   \<and> fst (one_batch w current_url_index url_count s) \<le> url_count"
  by (simp add: one_batch_def Let_def launch_loop_index launch_end_def CONCURRENT_DOWNLOADS_def)

text \<open>
  The batch loop of a cycle:
  \<open>while (current_url_index < url_count && atomic_load(&program_active))\<close>, with the
  second look at the flag after the join. Reading the flag takes a step.
\<close>

function batch_loop :: "surroundings \<Rightarrow> nat \<Rightarrow> nat \<Rightarrow> scheduler \<Rightarrow> scheduler" where
  "batch_loop w current_url_index url_count s =
     (if current_url_index < url_count then
        (if flag_at w (moment s) then
           (let batch = one_batch w current_url_index url_count (s\<lparr>moment := moment s + 1\<rparr>);
                s2 = snd batch
            in if \<not> flag_at w (moment s2) then s2\<lparr>moment := moment s2 + 1\<rparr>
               else batch_loop w (fst batch) url_count (s2\<lparr>moment := moment s2 + 1\<rparr>))
         else s\<lparr>moment := moment s + 1\<rparr>)
      else s)"
  by pat_completeness auto
termination
proof (relation "measure (\<lambda>(w, current_url_index, url_count, s). url_count - current_url_index)",
    goal_cases)
  case 1
  show ?case by simp
next
  case (2 w current_url_index url_count s batch s2)
  from one_batch_index [OF "2"(1), of w "s\<lparr>moment := moment s + 1\<rparr>"]
  show ?case unfolding "2"(3) by (simp add: diff_less_mono2)
qed

declare batch_loop.simps [simp del]

text \<open>
  The pause between cycles:
  \<open>for (int i = 0; i < 8 && atomic_load(&program_active); i++) sleep(1);\<close>,
  by the number of rounds left.
\<close>

fun pause_loop :: "surroundings \<Rightarrow> nat \<Rightarrow> scheduler \<Rightarrow> scheduler" where
  "pause_loop w 0 s = s"
| "pause_loop w (Suc rounds) s =
     (if flag_at w (moment s) then pause_loop w rounds (s\<lparr>moment := moment s + 2\<rparr>)
      else s\<lparr>moment := moment s + 1\<rparr>)"

text \<open>\<open>save_proxies_to_json()\<close> as a step of the scheduler.\<close>

definition write_checkpoint :: "scheduler \<Rightarrow> scheduler" where
  "write_checkpoint s = s\<lparr>moment := moment s + 1, checkpoints := checkpoints s @ [moment s]\<rparr>"

text \<open>
  The cycles of \<open>autonomous_operation\<close>: \<open>while (atomic_load(&program_active))\<close>. A
  cycle runs the batch loop over the catalog, saves when the interval has passed, and
  pauses. The loop ends only when the flag is found cleared, so it is a partial function.
\<close>

partial_function (option) cycle_loop :: "surroundings \<Rightarrow> nat \<Rightarrow> scheduler \<Rightarrow> scheduler option" where
  "cycle_loop w url_count s =
     (if flag_at w (moment s) then
        (let s1 = batch_loop w 0 url_count (s\<lparr>moment := moment s + 1\<rparr>);
             s2 = (if save_due w (moment s1) then write_checkpoint s1 else s1);
             s3 = pause_loop w 8 s2
         in cycle_loop w url_count s3)
      else Some (s\<lparr>moment := moment s + 1\<rparr>))"

declare cycle_loop.simps [code]

definition autonomous_operation :: "surroundings \<Rightarrow> nat \<Rightarrow> scheduler \<Rightarrow> scheduler option" where
  "autonomous_operation w url_count s = cycle_loop w url_count (write_checkpoint s)"

text \<open>
  \<open>cleanup_resources\<close>: the wait for the workers,
  \<open>while (atomic_load(&stats.active_workers) > 0 && wait_count < 30)\<close>, one second a
  round, and the final checkpoint.
\<close>

function wait_loop :: "nat \<Rightarrow> scheduler \<Rightarrow> scheduler" where
  "wait_loop wait_count s =
     (if active_workers s > 0 \<and> wait_count < 30
      then wait_loop (wait_count + 1) (s\<lparr>moment := moment s + 1\<rparr>)
      else s)"
  by pat_completeness auto
termination
  by (relation "measure (\<lambda>(wait_count, s). 30 - wait_count)") auto

declare wait_loop.simps [simp del]

definition cleanup_resources :: "scheduler \<Rightarrow> scheduler" where
  "cleanup_resources s = write_checkpoint (wait_loop 0 s)"

text \<open>\<open>main\<close> from \<open>autonomous_operation()\<close> on: the process exits after the cleanup.\<close>

definition main_run :: "surroundings \<Rightarrow> nat \<Rightarrow> scheduler option" where
  "main_run w url_count =
     (case autonomous_operation w url_count initial_scheduler of
        None \<Rightarrow> None
      | Some s \<Rightarrow> Some (cleanup_resources s))"

text \<open>
  A worker thread: \<open>url_worker\<close> reads the flag and, when it is set, delays and calls
  \<open>fetch_url_content\<close>, which reads the flag again before it does anything. The result
  says whether the request is made.
\<close>

definition url_worker :: "bool \<Rightarrow> bool \<Rightarrow> bool" where
  "url_worker flag_in_worker flag_in_fetch = (if flag_in_worker then flag_in_fetch else False)"

text \<open>The claim that no task is launched once the flag is cleared.\<close>

definition launched_while_active :: "surroundings \<Rightarrow> scheduler \<Rightarrow> bool" where
  "launched_while_active w s = list_all (\<lambda>(url, t). flag_at w t) (launches s)"

text \<open>
  Surroundings in which every allocation and thread creation succeeds and the flag is
  cleared at moment 3, right after the batch loop has looked at it for the first time.
\<close>

definition interrupted :: surroundings where
  "interrupted =
     \<lparr>flag_at = (\<lambda>t. t < 3), task_allocated = (\<lambda>i. True), thread_created = (\<lambda>i. True),
      save_due = (\<lambda>t. False)\<rparr>"

text \<open>
  Every worker was launched within \<open>CONCURRENT_DOWNLOADS\<close> steps of a moment at which
  the flag was still set: in a batch that was opened while the flag was set.
\<close>

definition launched_in_open_batch :: "surroundings \<Rightarrow> scheduler \<Rightarrow> bool" where
  "launched_in_open_batch w s =
     list_all (\<lambda>(url, t). list_ex (\<lambda>p. flag_at w p \<and> t \<le> p + CONCURRENT_DOWNLOADS) [0..<t])
       (launches s)"
section \<open>Properties of compute_hash\<close>

lemma hash_string_foldl:
  "hash_string sg h s =
     foldl (\<lambda>h b. (h XOR b) * 0x100000001b3) h (map (char_to_uint64 sg) (c_str s))"
  by (induction s arbitrary: h) (simp_all add: c_str_def FNV_PRIME_def)

lemma c_str_nth:
  "i < length (c_str s) \<Longrightarrow> char_at s i = c_str s ! i \<and> c_str s ! i \<noteq> NUL"
  unfolding c_str_def char_at_def
  by (metis (mono_tags, lifting) length_takeWhile_le less_le_trans nth_mem set_takeWhileD
      takeWhile_nth)

lemma c_str_end: "char_at s (length (c_str s)) = NUL"
proof (cases "length (c_str s) < length s")
  case True
  then show ?thesis
    unfolding c_str_def char_at_def using nth_length_takeWhile [of "\<lambda>c. c \<noteq> NUL" s] by simp
next
  case False
  then show ?thesis by (simp add: char_at_def)
qed


lemma hash_secret_foldl:
  "i \<le> 64 \<Longrightarrow> i \<le> length (c_str s) \<Longrightarrow>
   hash_secret sg h s i =
     foldl (\<lambda>h b. (h XOR b) * 0x100000001b3) h
       (map (char_to_uint64 sg) (drop i (take 64 (c_str s))))"
proof (induction sg h s i rule: hash_secret.induct)
  case (1 sg hash sec i)
  show ?case
  proof (cases "i < 64 \<and> i < length (c_str sec)")
    case True
    then have at: "char_at sec i = c_str sec ! i" "char_at sec i \<noteq> NUL"
      using c_str_nth [of i sec] by simp_all
    from True have "drop i (take 64 (c_str sec)) =
        c_str sec ! i # drop (i + 1) (take 64 (c_str sec))"
      using Cons_nth_drop_Suc [of i "take 64 (c_str sec)"] by simp
    with True at "1.IH" show ?thesis
      by (subst hash_secret.simps) (simp add: FNV_PRIME_def)
  next
    case False
    with "1.prems" have stop: "i = 64 \<or> length (c_str sec) = i" by auto
    then have "\<not> (i < 64 \<and> char_at sec i \<noteq> NUL)"
      using c_str_end [of sec] by auto
    with stop show ?thesis
      by (subst hash_secret.simps) auto
  qed
qed


lemma of_char_lt_256: "(of_char c :: nat) < 256"
  by (cases c) (simp add: of_char_def)

lemma take_bit_of_char: "take_bit 8 (of_char c :: nat) = of_char c"
  using of_char_lt_256 [of c] by (simp add: take_bit_nat_eq_self)

lemma ucast_of_char: "(ucast (of_char c :: 8 word) :: 64 word) = of_char c"
proof -
  have "(of_char c :: 8 word) = of_nat (of_char c)" by (simp add: of_nat_of_char)
  then have "(ucast (of_char c :: 8 word) :: 64 word) = of_nat (take_bit 8 (of_char c :: nat))"
    by (simp only: unsigned_of_nat) simp
  then show ?thesis by (simp add: take_bit_of_char of_nat_of_char)
qed

lemma scast_of_char:
  assumes "(of_char c :: nat) < 128"
  shows "(scast (of_char c :: 8 word) :: 64 word) = of_char c"
proof -
  have "int (of_char c) < 128" using assms by simp
  then have lt: "(of_char c :: int) < 128" by (simp add: of_nat_of_char)
  have "0 \<le> int (of_char c)" by simp
  then have ge: "0 \<le> (of_char c :: int)" by (simp only: of_nat_of_char)
  have sb: "signed_take_bit 7 (of_char c :: int) = of_char c"
    using lt ge by (simp add: signed_take_bit_int_eq_self)
  have "(scast (of_char c :: 8 word) :: 64 word) = scast (of_nat (of_char c :: nat) :: 8 word)"
    by (simp add: of_nat_of_char)
  also have "\<dots> = of_int (signed_take_bit 7 (int (of_char c)))"
    by (simp only: signed_of_nat) simp
  also have "\<dots> = of_char c"
    by (simp add: of_nat_of_char sb of_int_of_char)
  finally show ?thesis .
qed

lemma char_to_uint64_ascii:
  "(sg \<longrightarrow> (of_char c :: nat) < 128) \<Longrightarrow> char_to_uint64 sg c = of_char c"
  by (simp add: char_to_uint64_def ucast_of_char scast_of_char)


text \<open>
  Claim C1. For every triple of strings, \<open>compute_hash\<close> is the 64-bit FNV-1a fold, from
  seed \<open>0xcbf29ce484222325\<close> with multiplier \<open>0x100000001b3\<close>, over the bytes of
  server, a colon, the bytes of port, a colon, and the first 64 bytes of secret, each byte
  entering as \<open>(uint64_t)(*p)\<close> yields it. On bytes below \<open>0x80\<close>, and everywhere when
  \<open>char\<close> is unsigned, that value is the byte itself. Hence triples that agree on server,
  port and the first 64 bytes of secret have equal hashes.
\<close>

theorem compute_hash_fnv1a:
  "compute_hash sg srv prt sec = fnv1a (map (char_to_uint64 sg) (hashed_bytes srv prt sec))
   \<and> ((sg \<longrightarrow> (\<forall>c \<in> set (hashed_bytes srv prt sec). (of_char c :: nat) < 128)) \<longrightarrow>
        compute_hash sg srv prt sec = fnv1a (map of_char (hashed_bytes srv prt sec)))
   \<and> (hashed_bytes srv prt sec = hashed_bytes srv' prt' sec' \<longrightarrow>
        compute_hash sg srv prt sec = compute_hash sg srv' prt' sec')"
proof -
  have eq: "compute_hash sg s p k = fnv1a (map (char_to_uint64 sg) (hashed_bytes s p k))" for s p k
  proof -
    have colon: "char_to_uint64 sg CHR '':'' = 58"
      by (simp add: char_to_uint64_def)
    show ?thesis
      unfolding compute_hash_def hashed_bytes_def fnv1a_def Let_def hash_string_foldl
        FNV_OFFSET_def FNV_PRIME_def
      by (simp add: hash_secret_foldl colon)
  qed
  show ?thesis
  proof (intro conjI impI)
    show "compute_hash sg srv prt sec = fnv1a (map (char_to_uint64 sg) (hashed_bytes srv prt sec))"
      by (rule eq)
  next
    assume a: "sg \<longrightarrow> (\<forall>c \<in> set (hashed_bytes srv prt sec). (of_char c :: nat) < 128)"
    have "char_to_uint64 sg c = of_char c" if "c \<in> set (hashed_bytes srv prt sec)" for c
      using a that by (intro char_to_uint64_ascii) blast
    then have "map (char_to_uint64 sg) (hashed_bytes srv prt sec) =
        map of_char (hashed_bytes srv prt sec)"
      by simp
    then show "compute_hash sg srv prt sec = fnv1a (map of_char (hashed_bytes srv prt sec))"
      by (simp only: eq)
  next
    assume "hashed_bytes srv prt sec = hashed_bytes srv' prt' sec'"
    then show "compute_hash sg srv prt sec = compute_hash sg srv' prt' sec'"
      by (simp only: eq)
  qed
qed

theorem compute_hash_fnv1a_witness:
  "hashed_bytes ''1.2.3.4'' ''443'' ''aaaaaaaaaaaaaaaaaaaaaaaaaaaaaaaaaaaaaaaaaaaaaaaaaaaaaaaaaaaaaaaab'' =
     hashed_bytes (''1.2.3.4'' @ [CHR 0x00] @ ''x'') ''443'' ''aaaaaaaaaaaaaaaaaaaaaaaaaaaaaaaaaaaaaaaaaaaaaaaaaaaaaaaaaaaaaaaac''
   \<and> compute_hash True ''1.2.3.4'' ''443'' ''aaaaaaaaaaaaaaaaaaaaaaaaaaaaaaaaaaaaaaaaaaaaaaaaaaaaaaaaaaaaaaaab'' =
     compute_hash True (''1.2.3.4'' @ [CHR 0x00] @ ''x'') ''443'' ''aaaaaaaaaaaaaaaaaaaaaaaaaaaaaaaaaaaaaaaaaaaaaaaaaaaaaaaaaaaaaaaac''
   \<and> compute_hash True ''1.2.3.4'' ''443'' ''aaaaaaaaaaaaaaaaaaaaaaaaaaaaaaaaaaaaaaaaaaaaaaaaaaaaaaaaaaaaaaaab'' =
     fnv1a (map of_char ''1.2.3.4:443:aaaaaaaaaaaaaaaaaaaaaaaaaaaaaaaaaaaaaaaaaaaaaaaaaaaaaaaaaaaaaaaa'')"
proof -
  have h: "hashed_bytes ''1.2.3.4'' ''443'' ''aaaaaaaaaaaaaaaaaaaaaaaaaaaaaaaaaaaaaaaaaaaaaaaaaaaaaaaaaaaaaaaab'' =
     hashed_bytes (''1.2.3.4'' @ [CHR 0x00] @ ''x'') ''443'' ''aaaaaaaaaaaaaaaaaaaaaaaaaaaaaaaaaaaaaaaaaaaaaaaaaaaaaaaaaaaaaaaac''"
    by (simp add: hashed_bytes_def c_str_def NUL_def)
  have b: "hashed_bytes ''1.2.3.4'' ''443'' ''aaaaaaaaaaaaaaaaaaaaaaaaaaaaaaaaaaaaaaaaaaaaaaaaaaaaaaaaaaaaaaaab'' = ''1.2.3.4:443:aaaaaaaaaaaaaaaaaaaaaaaaaaaaaaaaaaaaaaaaaaaaaaaaaaaaaaaaaaaaaaaa''"
    by (simp add: hashed_bytes_def c_str_def NUL_def)
  have a: "\<forall>c \<in> set (hashed_bytes ''1.2.3.4'' ''443'' ''aaaaaaaaaaaaaaaaaaaaaaaaaaaaaaaaaaaaaaaaaaaaaaaaaaaaaaaaaaaaaaaab''). (of_char c :: nat) < 128"
    unfolding b by simp
  from compute_hash_fnv1a [of True "''1.2.3.4''" "''443''" "''aaaaaaaaaaaaaaaaaaaaaaaaaaaaaaaaaaaaaaaaaaaaaaaaaaaaaaaaaaaaaaaab''"
      "''1.2.3.4'' @ [CHR 0x00] @ ''x''" "''443''" "''aaaaaaaaaaaaaaaaaaaaaaaaaaaaaaaaaaaaaaaaaaaaaaaaaaaaaaaaaaaaaaaac''"] h a b
  show ?thesis by metis
qed

section \<open>Properties of sanitize_string\<close>

lemma collapse_nonws: "\<not> whitespace c \<Longrightarrow> collapse_whitespace (c # cs) = c # collapse_whitespace cs"
  by (cases cs) simp_all

lemma collapse_ws:
  "whitespace c \<Longrightarrow>
   collapse_whitespace (c # cs) = CHR '' '' # collapse_whitespace (dropWhile whitespace cs)"
  by (induction cs arbitrary: c) simp_all

lemma collapse_dropWhile:
  "collapse_whitespace (dropWhile whitespace xs) = dropWhile whitespace (collapse_whitespace xs)"
proof -
  have hd_ok: "dropWhile whitespace (collapse_whitespace ys) = collapse_whitespace ys"
    if "ys = dropWhile whitespace zs" for ys zs
  proof (cases ys)
    case Nil
    then show ?thesis by simp
  next
    case (Cons y ys')
    with that have "\<not> whitespace y"
      by (metis hd_dropWhile list.sel(1) list.distinct(1))
    with Cons show ?thesis by (simp add: collapse_nonws)
  qed
  show ?thesis
  proof (cases xs)
    case Nil
    then show ?thesis by simp
  next
    case (Cons c cs)
    show ?thesis
    proof (cases "whitespace c")
      case True
      have sp: "whitespace CHR '' ''" by (simp add: whitespace_def)
      from True Cons show ?thesis
        using hd_ok [OF refl, of cs] by (simp add: collapse_ws sp)
    next
      case False
      with Cons show ?thesis by (simp add: collapse_nonws)
    qed
  qed
qed

lemma c_str_Cons: "c_str (c # s) = (if c = NUL then [] else c # c_str s)"
  by (simp add: c_str_def)

lemma NUL_not_printable: "\<not> printable NUL"
  by (simp add: printable_def NUL_def)

lemma sanitize_loop_acc:
  "out \<noteq> [] \<Longrightarrow>
   sanitize_loop s out True =
     out @ collapse_whitespace (dropWhile whitespace (filter printable (c_str s)))
   \<and> sanitize_loop s out False = out @ collapse_whitespace (filter printable (c_str s))"
proof (induction s arbitrary: out)
  case Nil
  then show ?case by (simp add: c_str_def)
next
  case (Cons c s)
  have ih: "sanitize_loop s out' True =
      out' @ collapse_whitespace (dropWhile whitespace (filter printable (c_str s)))"
    "sanitize_loop s out' False = out' @ collapse_whitespace (filter printable (c_str s))"
    if "out' \<noteq> []" for out'
    using Cons.IH [OF that] by simp_all
  have ws: "(c = CHR '' '' \<or> c = CHR 0x09 \<or> c = CHR 0x0A \<or> c = CHR 0x0D) = whitespace c"
    by (auto simp: whitespace_def)
  have pr: "(0x20 \<le> (of_char c :: nat) \<and> (of_char c :: nat) < 0x7F) = printable c"
    by (simp add: printable_def)
  consider "c = NUL" | "c \<noteq> NUL" "\<not> printable c"
    | "c \<noteq> NUL" "printable c" "whitespace c" | "c \<noteq> NUL" "printable c" "\<not> whitespace c"
    by blast
  then show ?case
  proof cases
    case 1
    then show ?thesis by (simp add: c_str_Cons)
  next
    case 2
    with Cons.prems show ?thesis
      by (simp only: sanitize_loop.simps pr ws c_str_Cons) (simp add: ih)
  next
    case 3
    with Cons.prems show ?thesis
      by (simp only: sanitize_loop.simps pr ws c_str_Cons) (simp add: ih collapse_ws)
  next
    case 4
    with Cons.prems show ?thesis
      by (simp only: sanitize_loop.simps pr ws c_str_Cons) (simp add: ih collapse_nonws)
  qed
qed

lemma sanitize_loop_start:
  "sanitize_loop s [] False =
     collapse_whitespace (dropWhile whitespace (filter printable (c_str s)))"
proof (induction s)
  case Nil
  then show ?case by (simp add: c_str_def)
next
  case (Cons c s)
  have ws: "(c = CHR '' '' \<or> c = CHR 0x09 \<or> c = CHR 0x0A \<or> c = CHR 0x0D) = whitespace c"
    by (auto simp: whitespace_def)
  have pr: "(0x20 \<le> (of_char c :: nat) \<and> (of_char c :: nat) < 0x7F) = printable c"
    by (simp add: printable_def)
  show ?case
    using Cons.IH sanitize_loop_acc [of "[c]" s]
    by (simp only: sanitize_loop.simps pr ws c_str_Cons) (simp add: collapse_nonws)
qed

lemma trim_loop_rev:
  "trim_loop out = rev (dropWhile (\<lambda>c. c = CHR '' '' \<or> c = CHR 0x09) (rev out))"
proof (induction out rule: trim_loop.induct)
  case (1 out)
  show ?case
  proof (cases "out \<noteq> [] \<and> (last out = CHR '' '' \<or> last out = CHR 0x09)")
    case True
    then have r: "rev out = last out # rev (butlast out)"
      by (metis append_butlast_last_id rev_eq_Cons_iff rev_rev_ident)
    have "dropWhile (\<lambda>c. c = CHR '' '' \<or> c = CHR 0x09) (rev out) =
        dropWhile (\<lambda>c. c = CHR '' '' \<or> c = CHR 0x09) (last out # rev (butlast out))"
      by (simp only: r)
    also have "\<dots> = dropWhile (\<lambda>c. c = CHR '' '' \<or> c = CHR 0x09) (rev (butlast out))"
      using True by auto
    finally have d: "dropWhile (\<lambda>c. c = CHR '' '' \<or> c = CHR 0x09) (rev out) =
        dropWhile (\<lambda>c. c = CHR '' '' \<or> c = CHR 0x09) (rev (butlast out))" .
    have "trim_loop out = trim_loop (butlast out)"
      using True by (subst trim_loop.simps) simp
    with "1.IH" True d show ?thesis by simp
  next
    case False
    then show ?thesis
      by (subst trim_loop.simps) (cases out rule: rev_cases; auto)
  qed
qed

lemma collapse_only_space:
  "c \<in> set (collapse_whitespace xs) \<Longrightarrow> whitespace c \<Longrightarrow> c = CHR '' ''"
  by (induction xs rule: collapse_whitespace.induct) (auto split: if_splits)

lemma sanitize_string_eq: "sanitize_string s = normalized s"
proof -
  let ?f = "filter printable (c_str s)"
  let ?r = "collapse_whitespace (dropWhile whitespace ?f)"
  have "c \<in> set (rev ?r) \<Longrightarrow> (c = CHR '' '' \<or> c = CHR 0x09) = whitespace c" for c
    using collapse_only_space [of c "dropWhile whitespace ?f"] by (auto simp: whitespace_def)
  then have "dropWhile (\<lambda>c. c = CHR '' '' \<or> c = CHR 0x09) (rev ?r) = dropWhile whitespace (rev ?r)"
    by (intro dropWhile_cong) simp_all
  then show ?thesis
    by (simp add: sanitize_string_def normalized_def sanitize_loop_start trim_loop_rev
        trim_trailing_def trim_leading_def collapse_dropWhile)
qed

lemma sanitize_loop_extends: "prefix out (sanitize_loop s out flag)"
proof (induction s arbitrary: out flag)
  case Nil
  then show ?case by simp
next
  case (Cons c s)
  have "prefix out (sanitize_loop s (out @ [d]) f)" for d f
    using Cons.IH [of "out @ [d]" f] by (meson append_prefixD)
  with Cons.IH show ?case by simp
qed

lemma sanitize_loop_append:
  "prefix (sanitize_loop s out flag) (sanitize_loop (s @ t) out flag)"
  by (induction s arbitrary: out flag) (simp_all add: sanitize_loop_extends)

lemma trim_longest:
  assumes "prefix u y" and "u = [] \<or> \<not> P (last u)"
  shows "prefix u (rev (dropWhile P (rev y)))"
proof -
  from assms(1) obtain w where y: "y = u @ w" by (auto simp: prefix_def)
  have u: "dropWhile P (rev u) = rev u"
    using assms(2) by (cases u rule: rev_cases) auto
  have "suffix (rev u) (dropWhile P (rev w @ rev u))"
    by (simp add: dropWhile_append u suffix_def)
  then have "prefix (rev (rev u)) (rev (dropWhile P (rev w @ rev u)))"
    by (simp only: suffix_to_prefix rev_rev_ident)
  then show ?thesis by (simp add: y)
qed

lemma trim_not_trailing:
  "rev (dropWhile P (rev x)) = [] \<or> \<not> P (last (rev (dropWhile P (rev x))))"
proof (cases "dropWhile P (rev x)")
  case Nil
  then show ?thesis by simp
next
  case (Cons a as)
  then have "\<not> P a" by (metis hd_dropWhile list.distinct(1) list.sel(1))
  with Cons show ?thesis by simp
qed

lemma trim_prefix_of: "prefix (rev (dropWhile P (rev x))) x"
proof -
  have "suffix (dropWhile P (rev x)) (rev x)" by (rule suffix_dropWhile)
  then show ?thesis by (metis rev_rev_ident suffix_to_prefix)
qed

lemma sanitize_string_prefix: "prefix (sanitize_string s) (sanitize_string (s @ t))"
proof -
  let ?P = "\<lambda>c. c = CHR '' '' \<or> c = CHR 0x09"
  let ?x = "sanitize_loop s [] False" and ?y = "sanitize_loop (s @ t) [] False"
  have "prefix (rev (dropWhile ?P (rev ?x))) ?y"
    using trim_prefix_of [of ?P ?x] sanitize_loop_append [of s "[]" False t]
    by (rule prefix_order.trans)
  then have "prefix (rev (dropWhile ?P (rev ?x))) (rev (dropWhile ?P (rev ?y)))"
    using trim_not_trailing [of ?P ?x] by (rule trim_longest)
  then show ?thesis by (simp add: sanitize_string_def trim_loop_rev)
qed


text \<open>
  Claim C6, as stated: \<open>sanitize_string\<close> removes the non-printable bytes, collapses each
  whitespace run into one space and trims trailing whitespace. A leading space refutes
  it: the code writes a space only once something has been written
  (\<open>write_ptr > str\<close>), so it trims the front as well.
\<close>

theorem sanitize_string_leading_counterexample:
  "sanitize_string '' a'' = ''a'' \<and> normalized_trailing_only '' a'' = '' a''"
  by (simp add: sanitize_string_def trim_loop.simps normalized_trailing_only_def c_str_def
      NUL_def printable_def whitespace_def trim_trailing_def)

text \<open>
  Claim C6, amended: for every input, \<open>sanitize_string\<close> yields the C string with all
  bytes outside \<open>0x20..0x7E\<close> removed (tab, CR and LF among them), every run of spaces
  collapsed into one space, and leading as well as trailing whitespace trimmed. The result
  depends on the input alone, and sanitising a prefix of the input gives a prefix of the
  result.
\<close>

theorem sanitize_string_trims_both_ends:
  "sanitize_string s =
     trim_trailing (trim_leading (collapse_whitespace (filter printable (c_str s))))
   \<and> prefix (sanitize_string s) (sanitize_string (s @ t))"
  using sanitize_string_eq [of s] sanitize_string_prefix [of s t]
  by (simp add: normalized_def)

section \<open>Properties of validate_proxy\<close>

lemma of_char_eq_code: "((of_char c :: nat) = of_char d) = (c = d)"
  by simp

lemma hex_digit_code:
  "hex_digit c =
     ((0x30 \<le> (of_char c :: nat) \<and> (of_char c :: nat) \<le> 0x39)
      \<or> (0x61 \<le> (of_char c :: nat) \<and> (of_char c :: nat) \<le> 0x66)
      \<or> (0x41 \<le> (of_char c :: nat) \<and> (of_char c :: nat) \<le> 0x46))"
proof
  assume "hex_digit c"
  then show "(0x30 \<le> (of_char c :: nat) \<and> (of_char c :: nat) \<le> 0x39)
      \<or> (0x61 \<le> (of_char c :: nat) \<and> (of_char c :: nat) \<le> 0x66)
      \<or> (0x41 \<le> (of_char c :: nat) \<and> (of_char c :: nat) \<le> 0x46)"
    by (auto simp: hex_digit_def)
next
  let ?n = "of_char c :: nat"
  assume "(0x30 \<le> ?n \<and> ?n \<le> 0x39) \<or> (0x61 \<le> ?n \<and> ?n \<le> 0x66) \<or> (0x41 \<le> ?n \<and> ?n \<le> 0x46)"
  then have "?n \<in> of_char ` set ''0123456789abcdefABCDEF''"
    by (simp del: of_char_eq_iff) arith
  then obtain d where "d \<in> set ''0123456789abcdefABCDEF''" "?n = of_char d"
    by blast
  then show "hex_digit c"
    by (simp add: hex_digit_def del: set_simps) 
qed


lemma eq_char_code: "(of_char c :: nat) = 0x3D \<longleftrightarrow> c = CHR ''=''"
  using of_char_eq_code [of c "CHR ''=''"] by simp

lemma whitespace_code:
  "whitespace c =
     (\<not> ((of_char c :: nat) \<noteq> 0x20 \<and> (of_char c :: nat) \<noteq> 0x09
         \<and> (of_char c :: nat) \<noteq> 0x0A \<and> (of_char c :: nat) \<noteq> 0x0D))"
  using of_char_eq_code [of c "CHR '' ''"] of_char_eq_code [of c "CHR 0x09"]
    of_char_eq_code [of c "CHR 0x0A"] of_char_eq_code [of c "CHR 0x0D"]
  by (auto simp: whitespace_def)

lemma hex_not_eq: "hex_digit c \<Longrightarrow> c \<noteq> CHR ''=''"
  by (auto simp: hex_digit_def)

lemma hex_not_ws: "hex_digit c \<Longrightarrow> \<not> whitespace c"
  by (auto simp: hex_digit_def whitespace_def)

lemma eq_not_ws: "\<not> whitespace CHR ''=''"
  by (simp add: whitespace_def)


lemma validate_secret_loop_stop:
  "\<not> (i < n \<and> i < 128) \<Longrightarrow> validate_secret_loop s n i v h = (v \<ge> 16 \<and> h \<ge> 8)"
  by (subst validate_secret_loop.simps) (rule if_not_P, assumption)

lemma validate_secret_loop_hex:
  "i < n \<Longrightarrow> i < 128 \<Longrightarrow> hex_digit (char_at s i) \<Longrightarrow>
   validate_secret_loop s n i v h = validate_secret_loop s n (i + 1) (v + 1) (h + 1)"
  by (subst validate_secret_loop.simps) (simp add: hex_digit_code Let_def)

lemma validate_secret_loop_pad:
  "i < n \<Longrightarrow> i < 128 \<Longrightarrow> char_at s i = CHR ''='' \<Longrightarrow>
   validate_secret_loop s n i v h = validate_secret_loop s n (i + 1) (v + 1) h"
  by (subst validate_secret_loop.simps) simp

lemma validate_secret_loop_ws:
  "i < n \<Longrightarrow> i < 128 \<Longrightarrow> whitespace (char_at s i) \<Longrightarrow>
   validate_secret_loop s n i v h = validate_secret_loop s n (i + 1) v h"
  by (subst validate_secret_loop.simps) (auto simp: whitespace_def)

lemma validate_secret_loop_bad:
  "i < n \<Longrightarrow> i < 128 \<Longrightarrow> \<not> secret_char (char_at s i) \<Longrightarrow>
   validate_secret_loop s n i v h = False"
  by (subst validate_secret_loop.simps)
    (auto simp: secret_char_def hex_digit_code whitespace_code eq_char_code Let_def)

lemma validate_secret_loop_eq:
  "i \<le> strlen sec \<Longrightarrow> i \<le> 128 \<Longrightarrow>
   validate_secret_loop sec (strlen sec) i v h =
     (list_all secret_char (drop i (take 128 (c_str sec)))
      \<and> 16 \<le> v + int (length (filter (\<lambda>c. hex_digit c \<or> c = CHR ''='') (drop i (take 128 (c_str sec)))))
      \<and> 8 \<le> h + int (length (filter hex_digit (drop i (take 128 (c_str sec))))))"
proof (induction "min (strlen sec) 128 - i" arbitrary: i v h)
  case 0
  then have "\<not> (i < strlen sec \<and> i < 128)" "drop i (take 128 (c_str sec)) = []"
    by (auto simp: strlen_def)
  then show ?case by (simp add: validate_secret_loop_stop)
next
  case (Suc k)
  let ?r = "\<lambda>i. drop i (take 128 (c_str sec))"
  from Suc.hyps(2) have lt: "i < strlen sec" "i < 128" by simp_all
  define c where "c = char_at sec i"
  from lt have ci: "c = c_str sec ! i"
    using c_str_nth [of i sec] by (simp add: strlen_def c_def)
  from lt have r: "?r i = c # ?r (Suc i)"
    using Cons_nth_drop_Suc [of i "take 128 (c_str sec)"] by (simp add: strlen_def ci)
  from lt Suc.hyps(2) have ih: "validate_secret_loop sec (strlen sec) (Suc i) v' h' =
     (list_all secret_char (?r (Suc i))
      \<and> 16 \<le> v' + int (length (filter (\<lambda>c. hex_digit c \<or> c = CHR ''='') (?r (Suc i))))
      \<and> 8 \<le> h' + int (length (filter hex_digit (?r (Suc i)))))" for v' h'
    by (intro Suc.hyps(1)) simp_all
  consider "hex_digit c" | "\<not> hex_digit c" "c = CHR ''=''"
    | "\<not> hex_digit c" "c \<noteq> CHR ''=''" "whitespace c" | "\<not> secret_char c"
    by (auto simp: secret_char_def)
  then show ?case
  proof cases
    case 1
    with lt show ?thesis
      unfolding r by (simp add: validate_secret_loop_hex c_def [symmetric] ih secret_char_def)
  next
    case 2
    with lt show ?thesis
      unfolding r by (simp add: validate_secret_loop_pad c_def [symmetric] ih secret_char_def)
  next
    case 3
    with lt show ?thesis
      unfolding r by (simp add: validate_secret_loop_ws c_def [symmetric] ih secret_char_def)
  next
    case 4
    with lt show ?thesis
      unfolding r by (simp add: validate_secret_loop_bad c_def [symmetric])
  qed
qed


lemma strtol10_end: "snd (strtol10 p) \<le> strlen p"
proof -
  let ?s = "c_str p"
  let ?s1 = "dropWhile isspace_c ?s"
  let ?sg = "?s1 \<noteq> [] \<and> (hd ?s1 = CHR ''-'' \<or> hd ?s1 = CHR ''+'')"
  let ?s2 = "if ?sg then tl ?s1 else ?s1"
  have a: "length (takeWhile isspace_c ?s) + length ?s1 = length ?s"
    by (metis length_append takeWhile_dropWhile_id)
  have b: "(if ?sg then 1 else 0) + length ?s2 = length ?s1"
    by (cases ?s1) auto
  have c: "length (takeWhile isdigit_c ?s2) \<le> length ?s2"
    by (rule length_takeWhile_le)
  from a b c have "length (takeWhile isspace_c ?s) + (if ?sg then 1 else 0)
      + length (takeWhile isdigit_c ?s2) \<le> length ?s"
    by linarith
  then show ?thesis
    by (simp add: strtol10_def Let_def strlen_def)
qed

lemma char_at_end: "e \<le> strlen p \<Longrightarrow> (char_at p e \<noteq> NUL) = (e \<noteq> strlen p)"
proof (cases "e = strlen p")
  case True
  then show ?thesis using c_str_end [of p] by (simp add: strlen_def)
next
  case False
  moreover assume "e \<le> strlen p"
  ultimately have "e < length (c_str p)" by (simp add: strlen_def)
  from c_str_nth [OF this] False show ?thesis by simp
qed

lemma validate_proxy_eq: "validate_proxy srv prt sec = accepted srv prt sec"
proof -
  obtain v e where st: "strtol10 prt = (v, e)" by (cases "strtol10 prt")
  then have "e \<le> strlen prt" using strtol10_end [of prt] by simp
  then have ce: "(char_at prt e \<noteq> NUL) = (e \<noteq> strlen prt)" by (rule char_at_end)
  have pp: "port_parses prt = (\<not> (e = 0 \<or> e \<noteq> strlen prt \<or> v < 1 \<or> v > 65535))"
    by (auto simp: port_parses_def st)
  have e0: "e \<noteq> 0 \<Longrightarrow> e = strlen prt \<Longrightarrow> 1 \<le> strlen prt" by simp
  have loop: "validate_secret_loop sec (strlen sec) 0 0 0 = secret_well_formed (take 128 (c_str sec))"
    using validate_secret_loop_eq [of 0 sec 0 0] by (auto simp: secret_well_formed_def)
  show ?thesis
    unfolding validate_proxy_def accepted_def Let_def st prod.case ce loop pp
    using e0 by auto
qed

text \<open>
  Claim C3, as stated: \<open>validate_proxy\<close> accepts exactly when, among the other
  conditions, the secret consists only of hex digits, \<open>=\<close> and white space. The loop
  over the secret stops at index 128, so a character beyond it is never examined: a secret
  of 128 hex digits followed by \<open>z\<close> is accepted.
\<close>

theorem validate_proxy_long_secret_counterexample:
  "validate_proxy ''1.2.3.4'' ''443'' ''aaaaaaaaaaaaaaaaaaaaaaaaaaaaaaaaaaaaaaaaaaaaaaaaaaaaaaaaaaaaaaaaaaaaaaaaaaaaaaaaaaaaaaaaaaaaaaaaaaaaaaaaaaaaaaaaaaaaaaaaaaaaaaaaz''
   \<and> \<not> accepted_as_claimed ''1.2.3.4'' ''443'' ''aaaaaaaaaaaaaaaaaaaaaaaaaaaaaaaaaaaaaaaaaaaaaaaaaaaaaaaaaaaaaaaaaaaaaaaaaaaaaaaaaaaaaaaaaaaaaaaaaaaaaaaaaaaaaaaaaaaaaaaaaaaaaaaaz''"
  by (simp add: validate_proxy_eq accepted_def accepted_as_claimed_def strlen_def c_str_def
      NUL_def port_parses_def strtol10_def isspace_c_def isdigit_c_def decimal_value_def
      LONG_MAX_def LONG_MIN_def secret_well_formed_def secret_char_def hex_digit_def
      whitespace_def)

text \<open>
  Claim C3, amended: \<open>validate_proxy\<close> accepts a triple exactly when the server length is
  4 to 253; the port text is at most 15 characters and \<open>strtol\<close> reads all of it (after
  optional white space and sign) as a decimal integer in 1 to 65535; and the secret has
  length 16 to 511 while its first 128 characters consist only of hex digits, \<open>=\<close> and
  white space and contain at least 8 hex digits and at least 16 hex-or-\<open>=\<close> characters.
  In particular it rejects the ports \<open>0\<close>, \<open>65536\<close> and \<open>abc\<close>, a secret of length
  10, a secret with a disallowed character among its first 128, and a server longer than
  253 characters.
\<close>

theorem validate_proxy_accepts_iff:
  "validate_proxy srv prt sec =
     (4 \<le> strlen srv \<and> strlen srv \<le> 253
      \<and> strlen prt \<le> 15 \<and> port_parses prt
      \<and> 16 \<le> strlen sec \<and> strlen sec \<le> 511
      \<and> list_all secret_char (take 128 (c_str sec))
      \<and> 8 \<le> length (filter hex_digit (take 128 (c_str sec)))
      \<and> 16 \<le> length (filter (\<lambda>c. hex_digit c \<or> c = CHR ''='') (take 128 (c_str sec))))
   \<and> \<not> validate_proxy srv ''0'' sec
   \<and> \<not> validate_proxy srv ''65536'' sec
   \<and> \<not> validate_proxy srv ''abc'' sec
   \<and> (strlen sec = 10 \<longrightarrow> \<not> validate_proxy srv prt sec)
   \<and> (\<not> list_all secret_char (take 128 (c_str sec)) \<longrightarrow> \<not> validate_proxy srv prt sec)
   \<and> (253 < strlen srv \<longrightarrow> \<not> validate_proxy srv prt sec)"
proof -
  have p0: "\<not> port_parses ''0''" and p1: "\<not> port_parses ''65536''" and p2: "\<not> port_parses ''abc''"
    by (simp_all add: port_parses_def strtol10_def c_str_def NUL_def isspace_c_def isdigit_c_def
        decimal_value_def LONG_MAX_def LONG_MIN_def strlen_def)
  show ?thesis
    unfolding validate_proxy_eq accepted_def secret_well_formed_def
    using p0 p1 p2 by auto
qed

theorem validate_proxy_accepts_iff_witness:
  "strlen ''zzzzzzzzzz'' = 10
   \<and> \<not> list_all secret_char (take 128 (c_str ''zzzzzzzzzz''))
   \<and> 253 < strlen (replicate 254 CHR ''a'')
   \<and> \<not> validate_proxy (replicate 254 CHR ''a'') ''443'' ''zzzzzzzzzz''
   \<and> validate_proxy ''1.2.3.4'' ''443'' ''deadbeefdeadbeefdeadbeef''"
proof -
  have a: "strlen ''zzzzzzzzzz'' = 10"
    by (simp add: strlen_def c_str_def NUL_def)
  have b: "\<not> list_all secret_char (take 128 (c_str ''zzzzzzzzzz''))"
    by (simp add: c_str_def NUL_def secret_char_def hex_digit_def whitespace_def)
  have "c_str (replicate 254 CHR ''a'') = replicate 254 CHR ''a''"
    unfolding c_str_def by (rule takeWhile_eq_all_conv [THEN iffD2]) (simp add: NUL_def)
  then have c: "253 < strlen (replicate 254 CHR ''a'')"
    by (simp add: strlen_def)
  have d: "port_parses ''443''"
    by (simp add: port_parses_def strtol10_def c_str_def NUL_def isspace_c_def isdigit_c_def
        decimal_value_def LONG_MAX_def LONG_MIN_def strlen_def)
  have e: "validate_proxy ''1.2.3.4'' ''443'' ''deadbeefdeadbeefdeadbeef''"
    using validate_proxy_accepts_iff [of "''1.2.3.4''" "''443''" "''deadbeefdeadbeefdeadbeef''"] d
    by (simp add: strlen_def c_str_def NUL_def secret_char_def hex_digit_def)
  from validate_proxy_accepts_iff [of "replicate 254 CHR ''a''" "''443''" "''zzzzzzzzzz''"] a b c e
  show ?thesis by blast
qed

section \<open>Properties of the record store\<close>

lemma hash_found_iff: "hash_found h rs = (h \<in> hash_value ` set rs)"
  by (induction rs) auto

lemma merge_loop_idle:
  "ct = PROXY_CAPACITY \<or> (\<forall>d \<in> set ds. hash_found (hash_value d) (take ct (proxy_storage st))) \<Longrightarrow>
   merge_loop ds ct ac st = (ct, ac, st)"
  by (induction ds) auto

lemma merge_loop_effect:
  "length (proxy_storage st) = ct \<Longrightarrow> merge_loop ds ct ac st = (ct', ac', st') \<Longrightarrow>
   length (proxy_storage st') = ct'
   \<and> prefix (proxy_storage st) (proxy_storage st')
   \<and> (ct \<le> PROXY_CAPACITY \<longrightarrow> ct' \<le> PROXY_CAPACITY)
   \<and> set (proxy_storage st') \<subseteq> set (proxy_storage st) \<union> set ds
   \<and> (distinct (map hash_value (proxy_storage st)) \<longrightarrow>
        distinct (map hash_value (proxy_storage st')))
   \<and> (ct' < PROXY_CAPACITY \<longrightarrow> hash_value ` set ds \<subseteq> hash_value ` set (proxy_storage st'))
   \<and> unique_proxies st' + ct = unique_proxies st + ct'
   \<and> successful_proxies st' + ct = successful_proxies st + ct'
   \<and> ac' + ct = ac + ct'
   \<and> total_proxies st' = total_proxies st
   \<and> last_cycle_proxies st' = last_cycle_proxies st
   \<and> processed_urls st' = processed_urls st"
proof (induction ds arbitrary: ct ac st)
  case Nil
  then show ?case by auto
next
  case (Cons d ds)
  consider (full) "\<not> ct < PROXY_CAPACITY"
    | (dup) "ct < PROXY_CAPACITY" "hash_found (hash_value d) (take ct (proxy_storage st))"
    | (new) "ct < PROXY_CAPACITY" "\<not> hash_found (hash_value d) (take ct (proxy_storage st))"
    by blast
  then show ?case
  proof cases
    case full
    with Cons.prems show ?thesis by auto
  next
    case dup
    with Cons.prems have run: "merge_loop ds ct ac st = (ct', ac', st')" by simp
    from dup(2) Cons.prems(1) have "hash_value d \<in> hash_value ` set (proxy_storage st)"
      by (simp add: hash_found_iff)
    moreover have "prefix (proxy_storage st) (proxy_storage st')"
      using Cons.IH [OF Cons.prems(1) run] by simp
    ultimately have "hash_value d \<in> hash_value ` set (proxy_storage st')"
      using set_mono_prefix by blast
    with Cons.IH [OF Cons.prems(1) run] show ?thesis by auto
  next
    case new
    let ?st = "st\<lparr>proxy_storage := take ct (proxy_storage st) @ [d],
                    unique_proxies := unique_proxies st + 1,
                    successful_proxies := successful_proxies st + 1\<rparr>"
    from new Cons.prems have run: "merge_loop ds (ct + 1) (ac + 1) ?st = (ct', ac', st')" by simp
    from Cons.prems(1) have len: "length (proxy_storage ?st) = ct + 1"
      and sto: "proxy_storage ?st = proxy_storage st @ [d]" by simp_all
    note ih = Cons.IH [OF len run]
    from new(2) Cons.prems(1) have nd: "hash_value d \<notin> hash_value ` set (proxy_storage st)"
      by (simp add: hash_found_iff)
    have p: "prefix (proxy_storage st) (proxy_storage st')"
      using ih sto by (metis append_prefixD)
    have "d \<in> set (proxy_storage st')"
      using ih sto set_mono_prefix by fastforce
    with ih p nd new(1) show ?thesis
      unfolding sto by (auto simp: sto)
  qed
qed


lemma merge_batch_at_capacity:
  "total_proxies st = PROXY_CAPACITY \<Longrightarrow> merge_batch st b = st"
  by (simp add: merge_batch_def merge_loop_idle)

lemma merge_batch_idle:
  assumes "length (proxy_storage st) = total_proxies st" and "covered st b"
  shows "merge_batch st b = st"
proof (cases "total_proxies st = PROXY_CAPACITY")
  case True
  then show ?thesis by (rule merge_batch_at_capacity)
next
  case False
  with assms have "\<forall>d \<in> set b. hash_found (hash_value d) (take (total_proxies st) (proxy_storage st))"
    by (auto simp: covered_def hash_found_iff)
  then have "merge_loop b (total_proxies st) 0 st = (total_proxies st, 0, st)"
    by (intro merge_loop_idle) simp
  then show ?thesis by (simp add: merge_batch_def)
qed

lemma merge_batch_effect:
  assumes "store_consistent st"
  shows "store_consistent (merge_batch st b)"
    and "prefix (proxy_storage st) (proxy_storage (merge_batch st b))"
    and "covered (merge_batch st b) b"
    and "set (proxy_storage (merge_batch st b)) \<subseteq> set (proxy_storage st) \<union> set b"
proof -
  obtain ct' ac' st' where run: "merge_loop b (total_proxies st) 0 st = (ct', ac', st')"
    by (cases "merge_loop b (total_proxies st) 0 st") auto
  from assms have len: "length (proxy_storage st) = total_proxies st"
    by (simp add: store_consistent_def)
  note eff = merge_loop_effect [OF len run]
  have sto: "proxy_storage (merge_batch st b) = proxy_storage st'"
    using run eff by (cases b) (auto simp: merge_batch_def)
  have tot: "total_proxies (merge_batch st b) = ct'"
    using run by (cases b) (auto simp: merge_batch_def)
  have uni: "unique_proxies (merge_batch st b) = unique_proxies st'"
    using run by (cases b) (auto simp: merge_batch_def)
  from assms eff show "store_consistent (merge_batch st b)"
    by (simp add: store_consistent_def sto tot uni)
  from eff show "prefix (proxy_storage st) (proxy_storage (merge_batch st b))"
    by (simp add: sto)
  from assms eff show "covered (merge_batch st b) b"
    unfolding covered_def sto tot store_consistent_def by (cases "ct' < PROXY_CAPACITY") auto
  from eff show "set (proxy_storage (merge_batch st b)) \<subseteq> set (proxy_storage st) \<union> set b"
    by (simp add: sto)
qed

lemma covered_persists:
  assumes "store_consistent st" and "covered st b"
  shows "covered (merge_batch st b2) b"
proof (cases "total_proxies st = PROXY_CAPACITY")
  case True
  then show ?thesis using assms(2) by (simp add: merge_batch_at_capacity)
next
  case False
  with assms(2) have "hash_value ` set b \<subseteq> hash_value ` set (proxy_storage st)"
    by (simp add: covered_def)
  moreover have "set (proxy_storage st) \<subseteq> set (proxy_storage (merge_batch st b2))"
    using merge_batch_effect(2) [OF assms(1), of b2] by (rule set_mono_prefix)
  ultimately show ?thesis by (auto simp: covered_def)
qed

lemma merge_batches_snoc: "merge_batches st (bs @ [b]) = merge_batch (merge_batches st bs) b"
  by (simp add: merge_batches_def)

lemma initial_state_consistent: "store_consistent initial_state"
  by (simp add: store_consistent_def initial_state_def)

lemma merge_batches_consistent:
  "store_consistent st \<Longrightarrow> store_consistent (merge_batches st bs)"
  by (induction bs rule: rev_induct)
    (simp_all add: merge_batches_snoc merge_batch_effect(1), simp add: merge_batches_def)

lemma merge_batches_covered:
  "store_consistent st \<Longrightarrow> b \<in> set bs \<Longrightarrow> covered (merge_batches st bs) b"
proof (induction bs rule: rev_induct)
  case Nil
  then show ?case by simp
next
  case (snoc x bs)
  have c: "store_consistent (merge_batches st bs)"
    using snoc.prems(1) by (rule merge_batches_consistent)
  show ?case
  proof (cases "b = x")
    case True
    then show ?thesis
      using merge_batch_effect(3) [OF c, of x] by (simp add: merge_batches_snoc)
  next
    case False
    with snoc have "covered (merge_batches st bs) b" by simp
    then show ?thesis
      using covered_persists [OF c] by (simp add: merge_batches_snoc)
  qed
qed

lemma distinct_filter_le_one:
  "distinct (map f xs) \<Longrightarrow> length (filter (\<lambda>r. f r = h) xs) \<le> 1"
proof (induction xs)
  case Nil
  then show ?case by simp
next
  case (Cons a xs)
  show ?case
  proof (cases "f a = h")
    case True
    with Cons.prems have "h \<notin> f ` set xs" by simp
    then have "filter (\<lambda>r. f r = h) xs = []"
      unfolding filter_empty_conv by blast
    with True show ?thesis by simp
  next
    case False
    with Cons show ?thesis by simp
  qed
qed

text \<open>
  Claim C2. After any sequence of batch merges from the empty store, no two stored records
  share a hash value: for every hash at most one stored record carries it. A batch found in
  a document identical to one whose batch was merged before carries the same hash values,
  record by record (the hash is computed from the normalised triple alone); merging it
  changes neither the store nor any counter, the unique-proxy count among them.
\<close>

theorem store_one_record_per_hash:
  "distinct (map hash_value (proxy_storage (merge_batches initial_state bs)))
   \<and> (\<forall>h. length (filter (\<lambda>r. hash_value r = h) (proxy_storage (merge_batches initial_state bs))) \<le> 1)
   \<and> (b \<in> set bs \<and> map hash_value b' = map hash_value b \<longrightarrow>
        merge_batch (merge_batches initial_state bs) b' = merge_batches initial_state bs)"
proof -
  let ?st = "merge_batches initial_state bs"
  have c: "store_consistent ?st"
    using initial_state_consistent by (rule merge_batches_consistent)
  then have d: "distinct (map hash_value (proxy_storage ?st))"
    and len: "length (proxy_storage ?st) = total_proxies ?st"
    by (simp_all add: store_consistent_def)
  have one: "length (filter (\<lambda>r. hash_value r = h) (proxy_storage ?st)) \<le> 1" for h
  proof -
    from d show ?thesis by (rule distinct_filter_le_one)
  qed
  have idem: "merge_batch ?st b' = ?st" if "b \<in> set bs" "map hash_value b' = map hash_value b"
  proof -
    from that(1) have "covered ?st b"
      using initial_state_consistent by (intro merge_batches_covered)
    moreover from that(2) have "hash_value ` set b' = hash_value ` set b"
      by (metis set_map)
    ultimately have "covered ?st b'" by (simp add: covered_def)
    with len show ?thesis by (rule merge_batch_idle)
  qed
  from d one idem show ?thesis by blast
qed


theorem store_one_record_per_hash_witness:
  "[\<lparr>server = ''1.2.3.4'', port = ''443'', secret = ''deadbeefdeadbeefdeadbeef'',
      connection_url = ''tg://proxy?server=1.2.3.4&port=443&secret=deadbeefdeadbeefdeadbeef'',
      source = ''https://t.me/s/mtproxy'', country = ''UN'', type = ''IPv4'',
      hash_value = 12441555495511532276, discovery_time = 1000, last_verified = 1000,
      active = 1, verified = 0, speed_score = 50\<rparr>] \<in> set [[
    \<lparr>server = ''1.2.3.4'', port = ''443'', secret = ''deadbeefdeadbeefdeadbeef'',
      connection_url = ''tg://proxy?server=1.2.3.4&port=443&secret=deadbeefdeadbeefdeadbeef'',
      source = ''https://t.me/s/mtproxy'', country = ''UN'', type = ''IPv4'',
      hash_value = 12441555495511532276, discovery_time = 1000, last_verified = 1000,
      active = 1, verified = 0, speed_score = 50\<rparr>]]
   \<and> unique_proxies (merge_batch (merge_batches initial_state [[
    \<lparr>server = ''1.2.3.4'', port = ''443'', secret = ''deadbeefdeadbeefdeadbeef'',
      connection_url = ''tg://proxy?server=1.2.3.4&port=443&secret=deadbeefdeadbeefdeadbeef'',
      source = ''https://t.me/s/mtproxy'', country = ''UN'', type = ''IPv4'',
      hash_value = 12441555495511532276, discovery_time = 1000, last_verified = 1000,
      active = 1, verified = 0, speed_score = 50\<rparr>]]) [
    \<lparr>server = ''1.2.3.4'', port = ''443'', secret = ''deadbeefdeadbeefdeadbeef'',
      connection_url = ''tg://proxy?server=1.2.3.4&port=443&secret=deadbeefdeadbeefdeadbeef'',
      source = ''https://t.me/s/mtproxy'', country = ''UN'', type = ''IPv4'',
      hash_value = 12441555495511532276, discovery_time = 2000, last_verified = 2000,
      active = 1, verified = 0, speed_score = 50\<rparr>]) = 1"
proof -
  let ?r = "\<lambda>t. \<lparr>server = ''1.2.3.4'', port = ''443'', secret = ''deadbeefdeadbeefdeadbeef'',
      connection_url = ''tg://proxy?server=1.2.3.4&port=443&secret=deadbeefdeadbeefdeadbeef'',
      source = ''https://t.me/s/mtproxy'', country = ''UN'', type = ''IPv4'',
      hash_value = 12441555495511532276, discovery_time = t, last_verified = t,
      active = 1, verified = 0, speed_score = 50\<rparr>"
  have u: "unique_proxies (merge_batches initial_state [[?r 1000]]) = 1"
    by (simp add: merge_batches_def merge_batch_def initial_state_def PROXY_CAPACITY_def)
  from store_one_record_per_hash [of "[[?r 1000]]" "[?r 1000]" "[?r 2000]"] u
  show ?thesis by simp
qed

text \<open>
  Claim C5. After any sequence of batch merges the store holds at most \<open>PROXY_CAPACITY\<close>,
  that is 1,000,000, records, all of them counted; a further merge leaves every record
  stored before in its cell unchanged (the old store is a prefix of the new one); and a
  merge into a store at capacity returns the state as it was: nothing is added, nothing
  fails.
\<close>

theorem store_never_exceeds_capacity:
  "total_proxies (merge_batches initial_state bs) \<le> PROXY_CAPACITY
   \<and> length (proxy_storage (merge_batches initial_state bs)) = total_proxies (merge_batches initial_state bs)
   \<and> prefix (proxy_storage (merge_batches initial_state bs))
        (proxy_storage (merge_batch (merge_batches initial_state bs) b))
   \<and> (total_proxies st = PROXY_CAPACITY \<longrightarrow> merge_batch st b = st)"
proof -
  have c: "store_consistent (merge_batches initial_state bs)"
    using initial_state_consistent by (rule merge_batches_consistent)
  from c merge_batch_effect(2) [OF c, of b] merge_batch_at_capacity [of st b]
  show ?thesis by (simp add: store_consistent_def)
qed

theorem store_never_exceeds_capacity_witness:
  "total_proxies \<lparr>proxy_storage = replicate 1000000
      \<lparr>server = ''1.2.3.4'', port = ''443'', secret = ''deadbeefdeadbeefdeadbeef'',
        connection_url = ''tg://proxy?server=1.2.3.4&port=443&secret=deadbeefdeadbeefdeadbeef'',
        source = ''https://t.me/s/mtproxy'', country = ''UN'', type = ''IPv4'',
        hash_value = 12441555495511532276, discovery_time = 1000, last_verified = 1000,
        active = 1, verified = 0, speed_score = 50\<rparr>,
      total_proxies = 1000000, unique_proxies = 1000000, successful_proxies = 1000000,
      last_cycle_proxies = 0, processed_urls = 1\<rparr> = PROXY_CAPACITY
   \<and> merge_batch \<lparr>proxy_storage = replicate 1000000
      \<lparr>server = ''1.2.3.4'', port = ''443'', secret = ''deadbeefdeadbeefdeadbeef'',
        connection_url = ''tg://proxy?server=1.2.3.4&port=443&secret=deadbeefdeadbeefdeadbeef'',
        source = ''https://t.me/s/mtproxy'', country = ''UN'', type = ''IPv4'',
        hash_value = 12441555495511532276, discovery_time = 1000, last_verified = 1000,
        active = 1, verified = 0, speed_score = 50\<rparr>,
      total_proxies = 1000000, unique_proxies = 1000000, successful_proxies = 1000000,
      last_cycle_proxies = 0, processed_urls = 1\<rparr>
     [\<lparr>server = ''5.6.7.8'', port = ''80'', secret = ''0123456789abcdef0123'',
        connection_url = ''tg://proxy?server=5.6.7.8&port=80&secret=0123456789abcdef0123'',
        source = ''https://t.me/s/mtproxy'', country = ''UN'', type = ''IPv4'',
        hash_value = 77, discovery_time = 2000, last_verified = 2000,
        active = 1, verified = 0, speed_score = 50\<rparr>]
   = \<lparr>proxy_storage = replicate 1000000
      \<lparr>server = ''1.2.3.4'', port = ''443'', secret = ''deadbeefdeadbeefdeadbeef'',
        connection_url = ''tg://proxy?server=1.2.3.4&port=443&secret=deadbeefdeadbeefdeadbeef'',
        source = ''https://t.me/s/mtproxy'', country = ''UN'', type = ''IPv4'',
        hash_value = 12441555495511532276, discovery_time = 1000, last_verified = 1000,
        active = 1, verified = 0, speed_score = 50\<rparr>,
      total_proxies = 1000000, unique_proxies = 1000000, successful_proxies = 1000000,
      last_cycle_proxies = 0, processed_urls = 1\<rparr>"
proof -
  let ?st = "\<lparr>proxy_storage = replicate 1000000
      \<lparr>server = ''1.2.3.4'', port = ''443'', secret = ''deadbeefdeadbeefdeadbeef'',
        connection_url = ''tg://proxy?server=1.2.3.4&port=443&secret=deadbeefdeadbeefdeadbeef'',
        source = ''https://t.me/s/mtproxy'', country = ''UN'', type = ''IPv4'',
        hash_value = 12441555495511532276, discovery_time = 1000, last_verified = 1000,
        active = 1, verified = 0, speed_score = 50\<rparr>,
      total_proxies = 1000000, unique_proxies = 1000000, successful_proxies = 1000000,
      last_cycle_proxies = 0, processed_urls = 1\<rparr>"
  let ?b = "[\<lparr>server = ''5.6.7.8'', port = ''80'', secret = ''0123456789abcdef0123'',
        connection_url = ''tg://proxy?server=5.6.7.8&port=80&secret=0123456789abcdef0123'',
        source = ''https://t.me/s/mtproxy'', country = ''UN'', type = ''IPv4'',
        hash_value = 77, discovery_time = 2000, last_verified = 2000,
        active = 1, verified = 0, speed_score = 50\<rparr>]"
  have t: "total_proxies ?st = PROXY_CAPACITY" by (simp add: PROXY_CAPACITY_def)
  from store_never_exceeds_capacity [of "[]" ?b ?st] t
  show ?thesis by blast
qed

section \<open>Properties of the extraction engine\<close>

lemma match_loop_preserves:
  assumes run: "match_loop env cp content n src off b = Some b'"
    and step: "\<And>mv b. Q b \<Longrightarrow> Q (process_match env content src mv b)"
    and obs: "\<And>b k. Q b \<Longrightarrow> Q (b\<lparr>observations := k\<rparr>)"
    and start: "Q b"
  shows "Q b'"
proof -
  let ?P = "\<lambda>e (cp :: pcre2_code) c (n :: nat) s (off :: nat) b y.
    (\<forall>mv b. Q b \<longrightarrow> Q (process_match e c s mv b)) \<longrightarrow> Q b \<longrightarrow> Q y"
  have "?P env cp content n src off b b'"
  proof (rule match_loop.raw_induct [where P = ?P, OF _ run], goal_cases)
    case (1 loop env cp content n src off b b')
    note ih = "1"(1) and body = "1"(2)
    show ?case
    proof (intro impI)
      assume st: "\<forall>mv b. Q b \<longrightarrow> Q (process_match env content src mv b)" and q: "Q b"
      obtain rc mv where m: "cp content n off = (rc, mv)" by (cases "cp content n off")
      let ?b1 = "b\<lparr>observations := observations b + 1\<rparr>"
      let ?b2 = "process_match env content src mv ?b1"
      have q1: "Q ?b1" using q by (rule obs)
      have q2: "Q ?b2" using st q1 by blast
      show "Q b'"
      proof (cases "off < n \<and> length (discovered_proxies b) < PROXY_BATCH_SIZE")
        case False
        with body have "b' = b" by (simp only: if_False) simp
        with q show ?thesis by simp
      next
        case guard: True
        show ?thesis
        proof (cases "program_active env (observations b)")
          case False
          with guard body have "b' = ?b1" by (simp only: if_True if_False) simp
          with q1 show ?thesis by simp
        next
          case act: True
          show ?thesis
          proof (cases "rc < 4")
            case True
            with guard act body m have "b' = ?b1" by (simp add: Let_def)
            with q1 show ?thesis by simp
          next
            case rc: False
            show ?thesis
            proof (cases "n \<le> size_t_add (mv 1) 1")
              case True
              with guard act rc body m have "b' = ?b2" by (simp add: Let_def)
              with q2 show ?thesis by simp
            next
              case False
              with guard act rc body m
              have "loop env cp content n src (size_t_add (mv 1) 1) ?b2 = Some b'"
                by (simp add: Let_def)
              from ih [OF this] st q2 show ?thesis by simp
            qed
          qed
        qed
      qed
    qed
  qed
  with step start show ?thesis by simp
qed

lemma pattern_loop_preserves:
  assumes "pattern_loop env content n src ps b = Some b'"
    and "\<And>mv b. Q b \<Longrightarrow> Q (process_match env content src mv b)"
    and "\<And>b k. Q b \<Longrightarrow> Q (b\<lparr>observations := k\<rparr>)"
    and "Q b"
  shows "Q b'"
  using assms(1,4)
proof (induction ps arbitrary: b)
  case Nil
  then show ?case by simp
next
  case (Cons p ps)
  let ?b1 = "b\<lparr>observations := observations b + 1\<rparr>"
  have q1: "Q ?b1" using Cons.prems(2) by (rule assms(3))
  show ?case
  proof (cases "program_active env (observations b)")
    case False
    with Cons.prems q1 show ?thesis by simp
  next
    case True
    show ?thesis
    proof (cases p)
      case None
      with True Cons.prems have "pattern_loop env content n src ps ?b1 = Some b'"
        by (simp add: Let_def)
      then show ?thesis using q1 by (rule Cons.IH)
    next
      case (Some cp)
      with True Cons.prems obtain b2 where
        m: "match_loop env cp content n src 0 ?b1 = Some b2"
        and r: "pattern_loop env content n src ps b2 = Some b'"
        by (auto simp: Let_def split: option.splits)
      have "Q b2" using m assms(2,3) q1 by (rule match_loop_preserves)
      with r show ?thesis by (rule Cons.IH)
    qed
  qed
qed


lemma collapse_whitespace_printable:
  "\<forall>c \<in> set xs. printable c \<Longrightarrow> \<forall>c \<in> set (collapse_whitespace xs). printable c"
  by (induction xs rule: collapse_whitespace.induct) (auto simp: printable_def)

lemma sanitize_string_printable: "c \<in> set (sanitize_string s) \<Longrightarrow> printable c"
proof -
  assume "c \<in> set (sanitize_string s)"
  then have "c \<in> set (rev (dropWhile whitespace (rev (dropWhile whitespace
      (collapse_whitespace (filter printable (c_str s)))))))"
    by (simp only: sanitize_string_eq normalized_def trim_trailing_def trim_leading_def)
  then have "c \<in> set (dropWhile whitespace (rev (dropWhile whitespace
      (collapse_whitespace (filter printable (c_str s))))))"
    by (simp only: set_rev)
  then have "c \<in> set (rev (dropWhile whitespace
      (collapse_whitespace (filter printable (c_str s)))))"
    by (rule set_dropWhileD)
  then have "c \<in> set (dropWhile whitespace (collapse_whitespace (filter printable (c_str s))))"
    by (simp only: set_rev)
  then have mem: "c \<in> set (collapse_whitespace (filter printable (c_str s)))"
    by (rule set_dropWhileD)
  have "\<forall>c \<in> set (filter printable (c_str s)). printable c" by simp
  then have "\<forall>c \<in> set (collapse_whitespace (filter printable (c_str s))). printable c"
    by (rule collapse_whitespace_printable)
  with mem show "printable c" by blast
qed

lemma strip_prefixes_printable:
  "\<forall>c \<in> set field. printable c \<Longrightarrow> \<forall>c \<in> set (strip_prefixes field ps). printable c"
proof (induction ps arbitrary: field)
  case Nil
  then show ?case by simp
next
  case (Cons p ps)
  have "\<forall>c \<in> set (sanitize_string (drop (strlen p) (c_str field))). printable c"
    by (simp add: sanitize_string_printable)
  then have "\<forall>c \<in> set (strip_prefixes (sanitize_string (drop (strlen p) (c_str field))) ps).
      printable c"
    by (rule Cons.IH)
  with Cons.IH [OF Cons.prems] show ?case by (simp add: Let_def)
qed

lemma is_ip_loop_eq:
  "NUL \<notin> set s \<Longrightarrow> is_ip_loop s = list_all (\<lambda>c. isdigit_c c \<or> c = CHR ''.'') s"
  by (induction s) (auto simp: isdigit_c_def)

lemma captured_field_no_NUL: "NUL \<notin> set (captured_field content offset n ps)"
proof
  assume "NUL \<in> set (captured_field content offset n ps)"
  moreover have "\<forall>c \<in> set (captured_field content offset n ps). printable c"
    unfolding captured_field_def
    by (rule strip_prefixes_printable) (simp add: sanitize_string_printable)
  ultimately show False using NUL_not_printable by blast
qed

lemma new_proxy_record_created_well:
  "validate_proxy (captured_field content offset n ps) prt sec \<Longrightarrow>
   created_well (new_proxy_record env src obs (captured_field content offset n ps) prt sec)"
  by (simp add: created_well_def new_proxy_record_def is_ip_loop_eq [OF captured_field_no_NUL])

lemma add_to_batch_records:
  "set (discovered_proxies (add_to_batch r b)) \<subseteq> insert r (set (discovered_proxies b))"
  by (auto simp: add_to_batch_def)

lemma process_match_cases:
  obtains (same) "process_match env content src mv b = b"
  | (add) offset n prt sec where
      "validate_proxy (captured_field content offset n field_prefixes) prt sec"
      "process_match env content src mv b =
         add_to_batch
           (new_proxy_record env src (observations b)
              (captured_field content offset n field_prefixes) prt sec)
           (b\<lparr>observations := observations b + 2\<rparr>)"
proof -
  let ?unset = "mv 2 = PCRE2_UNSET \<or> mv 3 = PCRE2_UNSET \<or> mv 4 = PCRE2_UNSET
      \<or> mv 5 = PCRE2_UNSET \<or> mv 6 = PCRE2_UNSET \<or> mv 7 = PCRE2_UNSET"
  let ?sl = "size_t_sub (mv 3) (mv 2)" and ?pl = "size_t_sub (mv 5) (mv 4)"
    and ?kl = "size_t_sub (mv 7) (mv 6)"
  let ?len = "?sl > 0 \<and> ?sl < 256 \<and> ?pl > 0 \<and> ?pl < 16 \<and> ?kl \<ge> 16 \<and> ?kl < 512"
  let ?srv = "captured_field content (mv 2) ?sl field_prefixes"
  let ?prt = "captured_field content (mv 4) ?pl port_prefixes"
  let ?sec = "captured_field content (mv 6) ?kl secret_prefixes"
  have unf: "process_match env content src mv b =
      (if ?unset then b
       else if ?len then
         (if validate_proxy ?srv ?prt ?sec
          then add_to_batch (new_proxy_record env src (observations b) ?srv ?prt ?sec)
                 (b\<lparr>observations := observations b + 2\<rparr>)
          else b)
       else b)"
    unfolding process_match_def Let_def ..
  show ?thesis
  proof (cases "\<not> ?unset \<and> ?len \<and> validate_proxy ?srv ?prt ?sec")
    case True
    then have v: "validate_proxy ?srv ?prt ?sec" by (elim conjE)
    from True have "process_match env content src mv b =
        add_to_batch (new_proxy_record env src (observations b) ?srv ?prt ?sec)
          (b\<lparr>observations := observations b + 2\<rparr>)"
      unfolding unf by (simp only: if_True if_False simp_thms)
    with v show ?thesis by (rule add)
  next
    case False
    then have "process_match env content src mv b = b"
      unfolding unf by (cases ?unset; cases ?len; simp only: if_True if_False simp_thms)
    then show ?thesis by (rule same)
  qed
qed

lemma process_match_created_well:
  assumes "\<forall>r \<in> set (discovered_proxies b). created_well r"
  shows "\<forall>r \<in> set (discovered_proxies (process_match env content src mv b)). created_well r"
proof (cases rule: process_match_cases [of env content src mv b])
  case same
  with assms show ?thesis by simp
next
  case (add offset n prt sec)
  let ?r = "new_proxy_record env src (observations b)
      (captured_field content offset n field_prefixes) prt sec"
  have "created_well ?r"
    using add(1) by (rule new_proxy_record_created_well)
  moreover have "set (discovered_proxies (add_to_batch ?r (b\<lparr>observations := observations b + 2\<rparr>)))
      \<subseteq> insert ?r (set (discovered_proxies b))"
    using add_to_batch_records [of ?r "b\<lparr>observations := observations b + 2\<rparr>"] by simp
  ultimately show ?thesis
    using assms unfolding add(2) by blast
qed

subsection \<open>The example run, evaluated\<close>

lemma example_field_server:
  "captured_field example_content 8 7 field_prefixes = ''1.2.3.4''"
  by (simp add: captured_field_def example_content_def strncpy_from_def c_str_def NUL_def
      sanitize_string_eq normalized_def printable_def whitespace_def trim_leading_def
      trim_trailing_def field_prefixes_def strncasecmp_is_0_def strlen_def tolower_c_def)

lemma example_field_port:
  "captured_field example_content 22 3 port_prefixes = ''443''"
  by (simp add: captured_field_def example_content_def strncpy_from_def c_str_def NUL_def
      sanitize_string_eq normalized_def printable_def whitespace_def trim_leading_def
      trim_trailing_def port_prefixes_def strncasecmp_is_0_def strlen_def tolower_c_def)

lemma example_field_secret:
  "captured_field example_content 34 24 secret_prefixes = ''deadbeefdeadbeefdeadbeef''"
  by (simp add: captured_field_def example_content_def strncpy_from_def c_str_def NUL_def
      sanitize_string_eq normalized_def printable_def whitespace_def trim_leading_def
      trim_trailing_def secret_prefixes_def strncasecmp_is_0_def strlen_def tolower_c_def)

lemma example_valid: "validate_proxy ''1.2.3.4'' ''443'' ''deadbeefdeadbeefdeadbeef''"
  by (simp add: validate_proxy_eq accepted_def strlen_def c_str_def NUL_def port_parses_def
      strtol10_def isspace_c_def isdigit_c_def decimal_value_def LONG_MAX_def LONG_MIN_def
      secret_well_formed_def secret_char_def hex_digit_def)

lemma example_hash:
  "compute_hash True ''1.2.3.4'' ''443'' ''deadbeefdeadbeefdeadbeef'' = 12441555495511532276"
  by (simp add: compute_hash_def FNV_OFFSET_def FNV_PRIME_def hash_secret.simps char_at_def
      NUL_def char_to_uint64_def)

lemma example_new_record:
  "new_proxy_record (example_env t) ''https://t.me/s/mtproxy'' k
     ''1.2.3.4'' ''443'' ''deadbeefdeadbeefdeadbeef'' = example_record t"
  by (simp add: new_proxy_record_def example_env_def example_record_def example_hash
      build_connection_url_def c_str_def NUL_def)

lemma example_process_match:
  "process_match (example_env t) example_content ''https://t.me/s/mtproxy''
     (\<lambda>i. [0, 58, 8, 15, 22, 25, 34, 58] ! i) \<lparr>discovered_proxies = [], observations = k\<rparr>
   = \<lparr>discovered_proxies = [example_record t], observations = k + 2\<rparr>"
  by (simp add: process_match_def PCRE2_UNSET_def size_t_sub_def example_field_server
      example_field_port example_field_secret example_valid example_new_record add_to_batch_def
      PROXY_BATCH_SIZE_def)

lemma example_extraction:
  "extract_proxies_from_content (example_env t) example_content 58 ''https://t.me/s/mtproxy'' st
   = Some (merge_batch st [example_record t])"
proof -
  have m: "match_loop (example_env t) example_pattern example_content 58
      ''https://t.me/s/mtproxy'' 0 \<lparr>discovered_proxies = [], observations = k\<rparr>
    = Some \<lparr>discovered_proxies = [example_record t], observations = k + 3\<rparr>" for k
    by (subst match_loop.simps)
      (simp add: example_pattern_def example_process_match PROXY_BATCH_SIZE_def size_t_add_def
        example_env_def [where t = t, THEN arg_cong [where f = program_active]])
  show ?thesis
    by (simp add: extract_proxies_from_content_def m
        example_env_def [where t = t, THEN arg_cong [where f = program_active]]
        example_env_def [where t = t, THEN arg_cong [where f = malloc_succeeds]]
        example_env_def [where t = t, THEN arg_cong [where f = compiled_patterns]])
qed

subsection \<open>Records of the store\<close>

lemma pattern_loop_created_well:
  assumes "pattern_loop env content n src ps b = Some b'"
    and "\<forall>r \<in> set (discovered_proxies b). created_well r"
  shows "\<forall>r \<in> set (discovered_proxies b'). created_well r"
  using assms(1) _ _ assms(2)
  by (rule pattern_loop_preserves) (simp_all add: process_match_created_well)

lemma extract_effect:
  assumes "extract_proxies_from_content env content n src st = Some st'"
    and "store_consistent st"
    and "\<forall>r \<in> set (proxy_storage st). created_well r"
  shows "store_consistent st'"
    and "\<forall>r \<in> set (proxy_storage st'). created_well r"
    and "prefix (proxy_storage st) (proxy_storage st')"
proof -
  have "store_consistent st' \<and> (\<forall>r \<in> set (proxy_storage st'). created_well r)
      \<and> prefix (proxy_storage st) (proxy_storage st')"
  proof (cases "st' = st")
    case True
    with assms show ?thesis by simp
  next
    case False
    with assms(1) obtain b where
      p: "pattern_loop env content n src (compiled_patterns env)
            \<lparr>discovered_proxies = [], observations = 1\<rparr> = Some b"
      and s: "st' = merge_batch st (discovered_proxies b)"
      by (auto simp: extract_proxies_from_content_def split: if_splits option.splits)
    have w: "\<forall>r \<in> set (discovered_proxies b). created_well r"
      using p by (rule pattern_loop_created_well) simp
    note eff = merge_batch_effect [OF assms(2), of "discovered_proxies b"]
    from eff(4) w assms(3) have "\<forall>r \<in> set (proxy_storage st'). created_well r"
      unfolding s by blast
    with eff(1,2) show ?thesis by (simp add: s)
  qed
  then show "store_consistent st'"
    and "\<forall>r \<in> set (proxy_storage st'). created_well r"
    and "prefix (proxy_storage st) (proxy_storage st')"
    by simp_all
qed

lemma extractions_effect:
  assumes "extractions st calls = Some st'"
    and "store_consistent st"
    and "\<forall>r \<in> set (proxy_storage st). created_well r"
  shows "store_consistent st' \<and> (\<forall>r \<in> set (proxy_storage st'). created_well r)
      \<and> prefix (proxy_storage st) (proxy_storage st')"
  using assms
proof (induction calls arbitrary: st)
  case Nil
  then show ?case by simp
next
  case (Cons c calls)
  obtain env content n src where c: "c = (env, content, n, src)" by (cases c)
  with Cons.prems(1) obtain st1 where
    one: "extract_proxies_from_content env content n src st = Some st1"
    and rest: "extractions st1 calls = Some st'"
    by (auto split: option.splits)
  note e = extract_effect [OF one Cons.prems(2,3)]
  from Cons.IH [OF rest e(1,2)] e(3) show ?case
    by (auto intro: prefix_order.trans)
qed

text \<open>
  Claim C8. Whatever calls of \<open>extract_proxies_from_content\<close> have run from the empty
  store, every stored record has passed \<open>validate_proxy\<close> on its cleaned fields and
  carries country \<open>UN\<close>, active flag 1, verified flag 0, speed score 50, and the type
  \<open>IPv4\<close> exactly when every character of its server is a decimal digit or a dot, and
  \<open>Domain\<close> otherwise. Later calls leave the stored records in their cells as they are:
  the store of now is a prefix of every later store.
\<close>

theorem stored_records_created_well:
  "extractions initial_state calls = Some st \<longrightarrow>
     (\<forall>r \<in> set (proxy_storage st). created_well r)
     \<and> (\<forall>later st'. extractions st later = Some st' \<longrightarrow>
            prefix (proxy_storage st) (proxy_storage st'))"
proof
  assume run: "extractions initial_state calls = Some st"
  have e: "store_consistent st \<and> (\<forall>r \<in> set (proxy_storage st). created_well r)
      \<and> prefix (proxy_storage initial_state) (proxy_storage st)"
    using run initial_state_consistent by (rule extractions_effect) (simp add: initial_state_def)
  have "prefix (proxy_storage st) (proxy_storage st')" if "extractions st later = Some st'"
    for later st'
    using extractions_effect [OF that] e by simp
  with e show "(\<forall>r \<in> set (proxy_storage st). created_well r)
     \<and> (\<forall>later st'. extractions st later = Some st' \<longrightarrow>
            prefix (proxy_storage st) (proxy_storage st'))"
    by blast
qed

lemma example_state:
  "merge_batch initial_state [example_record t] =
     \<lparr>proxy_storage = [example_record t], total_proxies = 1, unique_proxies = 1,
      successful_proxies = 1, last_cycle_proxies = 1, processed_urls = 0\<rparr>"
  by (simp add: merge_batch_def initial_state_def PROXY_CAPACITY_def)

theorem stored_records_created_well_witness:
  "extractions initial_state
     [(example_env 1000, example_content, 58, ''https://t.me/s/mtproxy'')]
   = Some \<lparr>proxy_storage = [example_record 1000], total_proxies = 1, unique_proxies = 1,
      successful_proxies = 1, last_cycle_proxies = 1, processed_urls = 0\<rparr>
   \<and> created_well (example_record 1000)
   \<and> extractions \<lparr>proxy_storage = [example_record 1000], total_proxies = 1, unique_proxies = 1,
      successful_proxies = 1, last_cycle_proxies = 1, processed_urls = 0\<rparr>
     [(example_env 2000, example_content, 58, ''https://t.me/s/mtproxy'')]
   = Some \<lparr>proxy_storage = [example_record 1000], total_proxies = 1, unique_proxies = 1,
      successful_proxies = 1, last_cycle_proxies = 1, processed_urls = 0\<rparr>
   \<and> prefix [example_record 1000] [example_record 1000]"
proof -
  let ?st = "\<lparr>proxy_storage = [example_record 1000], total_proxies = 1, unique_proxies = 1,
      successful_proxies = 1, last_cycle_proxies = 1, processed_urls = 0\<rparr>"
  have a: "extractions initial_state
      [(example_env 1000, example_content, 58, ''https://t.me/s/mtproxy'')] = Some ?st"
    by (simp add: example_extraction example_state)
  have b: "extractions ?st [(example_env 2000, example_content, 58, ''https://t.me/s/mtproxy'')]
      = Some ?st"
    by (simp add: example_extraction merge_batch_def PROXY_CAPACITY_def example_record_def)
  from stored_records_created_well
    [of "[(example_env 1000, example_content, 58, ''https://t.me/s/mtproxy'')]" ?st] a b
  show ?thesis by auto
qed

subsection \<open>The match loop\<close>

lemma match_loop_exhausted:
  "\<not> (off < n \<and> length (discovered_proxies b) < PROXY_BATCH_SIZE) \<Longrightarrow>
   match_loop env cp content n src off b = Some b"
  by (subst match_loop.simps) (rule if_not_P, assumption)

lemma match_loop_shutdown:
  "off < n \<Longrightarrow> length (discovered_proxies b) < PROXY_BATCH_SIZE \<Longrightarrow>
   \<not> program_active env (observations b) \<Longrightarrow>
   match_loop env cp content n src off b = Some (b\<lparr>observations := observations b + 1\<rparr>)"
  by (subst match_loop.simps) simp

lemma match_loop_no_match:
  "off < n \<Longrightarrow> length (discovered_proxies b) < PROXY_BATCH_SIZE \<Longrightarrow>
   program_active env (observations b) \<Longrightarrow> fst (cp content n off) < 4 \<Longrightarrow>
   match_loop env cp content n src off b = Some (b\<lparr>observations := observations b + 1\<rparr>)"
  by (subst match_loop.simps) (simp add: case_prod_unfold)

lemma match_loop_match:
  "off < n \<Longrightarrow> length (discovered_proxies b) < PROXY_BATCH_SIZE \<Longrightarrow>
   program_active env (observations b) \<Longrightarrow> \<not> fst (cp content n off) < 4 \<Longrightarrow>
   match_loop env cp content n src off b =
     (if n \<le> size_t_add (snd (cp content n off) 1) 1
      then Some (process_match env content src (snd (cp content n off))
                   (b\<lparr>observations := observations b + 1\<rparr>))
      else match_loop env cp content n src (size_t_add (snd (cp content n off) 1) 1)
             (process_match env content src (snd (cp content n off))
                (b\<lparr>observations := observations b + 1\<rparr>)))"
  by (subst match_loop.simps) (simp add: case_prod_unfold Let_def)

lemma pcre2_contract_next:
  assumes "pcre2_contract cp content n" and "n < PCRE2_UNSET" and "off < n"
    and "\<not> fst (cp content n off) < 4"
  shows "size_t_add (snd (cp content n off) 1) 1 = snd (cp content n off) 1 + 1"
    and "off < size_t_add (snd (cp content n off) 1) 1"
proof -
  from assms(1,3,4) have b: "off \<le> snd (cp content n off) 1" "snd (cp content n off) 1 \<le> n"
    by (auto simp: pcre2_contract_def case_prod_unfold)
  with assms(2) have "snd (cp content n off) 1 + 1 < 2 ^ 64"
    by (simp add: PCRE2_UNSET_def)
  then show "size_t_add (snd (cp content n off) 1) 1 = snd (cp content n off) 1 + 1"
    by (simp add: size_t_add_def)
  with b show "off < size_t_add (snd (cp content n off) 1) 1" by simp
qed

lemma match_loop_total:
  assumes "pcre2_contract cp content n" and "n < PCRE2_UNSET"
  shows "\<exists>b'. match_loop env cp content n src off b = Some b'"
proof (induction "n - off" arbitrary: off b rule: less_induct)
  case less
  consider (stop) "\<not> (off < n \<and> length (discovered_proxies b) < PROXY_BATCH_SIZE)"
    | (down) "off < n" "length (discovered_proxies b) < PROXY_BATCH_SIZE"
        "\<not> program_active env (observations b)"
    | (none) "off < n" "length (discovered_proxies b) < PROXY_BATCH_SIZE"
        "program_active env (observations b)" "fst (cp content n off) < 4"
    | (found) "off < n" "length (discovered_proxies b) < PROXY_BATCH_SIZE"
        "program_active env (observations b)" "\<not> fst (cp content n off) < 4"
    by blast
  then show ?case
  proof cases
    case stop
    then show ?thesis by (simp add: match_loop_exhausted)
  next
    case down
    then show ?thesis by (simp add: match_loop_shutdown)
  next
    case none
    then show ?thesis by (simp add: match_loop_no_match)
  next
    case found
    let ?next = "size_t_add (snd (cp content n off) 1) 1"
    have gt: "off < ?next"
      using assms found(1,4) by (rule pcre2_contract_next(2))
    show ?thesis
    proof (cases "n \<le> ?next")
      case True
      with found show ?thesis by (simp add: match_loop_match)
    next
      case False
      with gt found(1) have "n - ?next < n - off" by simp
      from less [OF this] False found show ?thesis by (simp add: match_loop_match)
    qed
  qed
qed

text \<open>
  Claim C7. The match loop of a pattern over a buffer of \<open>n\<close> bytes returns, given what
  the matcher guarantees (a match ends at or after the start offset, within the buffer).
  It stops at once, with the batch as it is, when the buffer is exhausted
  (\<open>current_offset \<ge> n\<close>) or the batch holds 5000 records; it stops when the shutdown
  flag is observed or when there is no further match; and after a match it either stops,
  the next offset having reached the end, or goes on from the next offset, which is one
  byte past the end of the match and strictly greater than the offset before.
\<close>

theorem match_loop_terminates:
  "(pcre2_contract cp content n \<and> n < PCRE2_UNSET \<longrightarrow>
      (\<exists>b'. match_loop env cp content n src off b = Some b'))
   \<and> (\<not> off < n \<longrightarrow> match_loop env cp content n src off b = Some b)
   \<and> (\<not> length (discovered_proxies b) < PROXY_BATCH_SIZE \<longrightarrow>
        match_loop env cp content n src off b = Some b)
   \<and> (off < n \<and> length (discovered_proxies b) < PROXY_BATCH_SIZE \<longrightarrow>
        (\<not> program_active env (observations b) \<longrightarrow>
           match_loop env cp content n src off b =
             Some (b\<lparr>observations := observations b + 1\<rparr>))
        \<and> (program_active env (observations b) \<and> fst (cp content n off) < 4 \<longrightarrow>
           match_loop env cp content n src off b =
             Some (b\<lparr>observations := observations b + 1\<rparr>))
        \<and> (program_active env (observations b) \<and> \<not> fst (cp content n off) < 4 \<longrightarrow>
           match_loop env cp content n src off b =
             (if n \<le> size_t_add (snd (cp content n off) 1) 1
              then Some (process_match env content src (snd (cp content n off))
                           (b\<lparr>observations := observations b + 1\<rparr>))
              else match_loop env cp content n src (size_t_add (snd (cp content n off) 1) 1)
                     (process_match env content src (snd (cp content n off))
                        (b\<lparr>observations := observations b + 1\<rparr>)))
           \<and> (pcre2_contract cp content n \<and> n < PCRE2_UNSET \<longrightarrow>
                size_t_add (snd (cp content n off) 1) 1 = snd (cp content n off) 1 + 1
                \<and> off < size_t_add (snd (cp content n off) 1) 1)))"
  using match_loop_total [of cp content n env src off b]
    match_loop_exhausted [of off n b env cp content src]
    match_loop_shutdown [of off n b env cp content src]
    match_loop_no_match [of off n b env cp content src]
    match_loop_match [of off n b env cp content src]
    pcre2_contract_next [of cp content n off]
  by blast


lemma example_contract: "pcre2_contract example_pattern example_content 58"
  by (simp add: pcre2_contract_def example_pattern_def)

theorem match_loop_terminates_witness:
  "pcre2_contract example_pattern example_content 58 \<and> 58 < PCRE2_UNSET
   \<and> match_loop (example_env 1000) example_pattern example_content 58 ''https://t.me/s/mtproxy''
         0 \<lparr>discovered_proxies = [], observations = 2\<rparr>
       = Some \<lparr>discovered_proxies = [example_record 1000], observations = 5\<rparr>
   \<and> size_t_add (snd (example_pattern example_content 58 0) 1) 1 = 59
   \<and> match_loop (example_env 1000) example_pattern example_content 58 ''https://t.me/s/mtproxy''
         58 \<lparr>discovered_proxies = [], observations = 2\<rparr>
       = Some \<lparr>discovered_proxies = [], observations = 2\<rparr>
   \<and> match_loop (example_env 1000) example_pattern example_content 58 ''https://t.me/s/mtproxy''
         0 \<lparr>discovered_proxies = replicate 5000 (example_record 1000), observations = 2\<rparr>
       = Some \<lparr>discovered_proxies = replicate 5000 (example_record 1000), observations = 2\<rparr>
   \<and> match_loop ((example_env 1000)\<lparr>program_active := \<lambda>n. False\<rparr>) example_pattern
         example_content 58 ''https://t.me/s/mtproxy''
         0 \<lparr>discovered_proxies = [], observations = 2\<rparr>
       = Some \<lparr>discovered_proxies = [], observations = 3\<rparr>
   \<and> match_loop (example_env 1000) example_pattern example_content 58 ''https://t.me/s/mtproxy''
         1 \<lparr>discovered_proxies = [], observations = 2\<rparr>
       = Some \<lparr>discovered_proxies = [], observations = 3\<rparr>"
proof -
  let ?env = "example_env 1000" and ?url = "''https://t.me/s/mtproxy''"
  let ?b = "\<lparr>discovered_proxies = [], observations = 2\<rparr>"
  have act: "program_active ?env k" for k by (simp add: example_env_def)
  have c: "pcre2_contract example_pattern example_content 58" by (rule example_contract)
  have u: "58 < PCRE2_UNSET" by (simp add: PCRE2_UNSET_def)
  have found: "\<not> fst (example_pattern example_content 58 0) < 4"
    and none: "fst (example_pattern example_content 58 1) < 4"
    and nxt: "size_t_add (snd (example_pattern example_content 58 0) 1) 1 = 59"
    by (simp_all add: example_pattern_def size_t_add_def)
  have pm: "process_match ?env example_content ?url (snd (example_pattern example_content 58 0))
      (?b\<lparr>observations := observations ?b + 1\<rparr>)
    = \<lparr>discovered_proxies = [example_record 1000], observations = 5\<rparr>"
    using example_process_match [of 1000 3] by (simp add: example_pattern_def)
  have i: "match_loop ?env example_pattern example_content 58 ?url 0 ?b
      = Some \<lparr>discovered_proxies = [example_record 1000], observations = 5\<rparr>"
    using match_loop_terminates [of example_pattern example_content 58 ?env ?url 0 ?b]
      act found nxt pm
    by (simp add: PROXY_BATCH_SIZE_def)
  have ii: "match_loop ?env example_pattern example_content 58 ?url 58 ?b = Some ?b"
    using match_loop_terminates [of example_pattern example_content 58 ?env ?url 58 ?b]
    by simp
  have iii: "match_loop ?env example_pattern example_content 58 ?url 0
      \<lparr>discovered_proxies = replicate 5000 (example_record 1000), observations = 2\<rparr>
      = Some \<lparr>discovered_proxies = replicate 5000 (example_record 1000), observations = 2\<rparr>"
    using match_loop_terminates [of example_pattern example_content 58 ?env ?url 0
        "\<lparr>discovered_proxies = replicate 5000 (example_record 1000), observations = 2\<rparr>"]
    by (simp add: PROXY_BATCH_SIZE_def)
  have iv: "match_loop (?env\<lparr>program_active := \<lambda>n. False\<rparr>) example_pattern
      example_content 58 ?url 0 ?b = Some \<lparr>discovered_proxies = [], observations = 3\<rparr>"
    using match_loop_terminates [of example_pattern example_content 58
        "?env\<lparr>program_active := \<lambda>n. False\<rparr>" ?url 0 ?b]
    by (simp add: PROXY_BATCH_SIZE_def)
  have v: "match_loop ?env example_pattern example_content 58 ?url 1 ?b
      = Some \<lparr>discovered_proxies = [], observations = 3\<rparr>"
    using match_loop_terminates [of example_pattern example_content 58 ?env ?url 1 ?b]
      act none
    by (simp add: PROXY_BATCH_SIZE_def)
  from c u i nxt ii iii iv v show ?thesis by simp
qed

section \<open>The download buffer at its ceiling\<close>

text \<open>
  Claim C10 says that \<open>write_callback\<close> returns 0 and stores nothing outside the block
  when the buffer cannot grow past the 100 MB ceiling. The code clamps the new capacity to
  \<open>BUFFER_CAPACITY\<close> and then copies all the same: with ten bytes left below the ceiling
  and a hundred bytes arriving, it returns 100, the block stays at 104857600 bytes, and
  the write ends at offset 104857690.
\<close>

theorem write_callback_overflows_at_ceiling:
  "returned (write_callback (replicate 100 CHR ''b'') 1 100 nearly_full_buffer True True) = 100
   \<and> stored_beyond_capacity
        (write_callback (replicate 100 CHR ''b'') 1 100 nearly_full_buffer True True)
   \<and> capacity (buffer (write_callback (replicate 100 CHR ''b'') 1 100 nearly_full_buffer True True))
        = 104857600
   \<and> size' (buffer (write_callback (replicate 100 CHR ''b'') 1 100 nearly_full_buffer True True))
        = 104857690"
  by (simp add: write_callback_def nearly_full_buffer_def BUFFER_CAPACITY_def Let_def)

lemma write_callback_realloc_fails:
  "size' b + es * ec + 1 > capacity b \<Longrightarrow>
   write_callback content es ec b True False
     = \<lparr>returned = 0, buffer = b, stored_beyond_capacity = False\<rparr>"
  by (simp add: write_callback_def Let_def)

lemma extract_malloc_fails:
  "\<not> malloc_succeeds env \<Longrightarrow> extract_proxies_from_content env content n src st = Some st"
  by (simp add: extract_proxies_from_content_def)

section \<open>Properties of the checkpoint\<close>




























section \<open>Shutdown\<close>

lemma launched_in_open_batch_iff:
  "launched_in_open_batch w s =
     list_all (\<lambda>(url, t). \<exists>p < t. flag_at w p \<and> t \<le> p + CONCURRENT_DOWNLOADS) (launches s)"
proof -
  have "list_ex (\<lambda>p. flag_at w p \<and> t \<le> p + CONCURRENT_DOWNLOADS) [0..<t]
      = (\<exists>p < t. flag_at w p \<and> t \<le> p + CONCURRENT_DOWNLOADS)" for t
    by (auto simp: list_ex_iff)
  then show ?thesis by (simp add: launched_in_open_batch_def)
qed


lemma launch_loop_done:
  "\<not> (i < bs \<and> cur < n) \<Longrightarrow> launch_loop w i bs cur n wl s = (cur, wl, s)"
  by (subst launch_loop.simps) (rule if_not_P, assumption)

lemma launch_loop_skip:
  "i < bs \<Longrightarrow> cur < n \<Longrightarrow> \<not> task_allocated w cur \<Longrightarrow>
   launch_loop w i bs cur n wl s =
     launch_loop w (Suc i) bs (Suc cur) n wl (s\<lparr>moment := Suc (moment s)\<rparr>)"
  by (subst launch_loop.simps) simp

lemma launch_loop_ok:
  "i < bs \<Longrightarrow> cur < n \<Longrightarrow> task_allocated w cur \<Longrightarrow> thread_created w cur \<Longrightarrow>
   launch_loop w i bs cur n wl s =
     launch_loop w (Suc i) bs (Suc cur) n (Suc wl)
       (s\<lparr>moment := Suc (moment s), launches := launches s @ [(cur, moment s)],
          active_workers := active_workers s + 1\<rparr>)"
  by (subst launch_loop.simps) simp

lemma launch_loop_fail:
  "i < bs \<Longrightarrow> cur < n \<Longrightarrow> task_allocated w cur \<Longrightarrow> \<not> thread_created w cur \<Longrightarrow>
   launch_loop w i bs cur n wl s =
     launch_loop w (Suc i) bs (Suc cur) n wl (s\<lparr>moment := Suc (moment s)\<rparr>)"
  by (subst launch_loop.simps) simp

lemma launch_loop_cases:
  obtains (finished) "\<not> (i < bs \<and> cur < n)" "launch_loop w i bs cur n wl s = (cur, wl, s)"
  | (skip) "i < bs" "cur < n"
      "launch_loop w i bs cur n wl s =
         launch_loop w (Suc i) bs (Suc cur) n wl (s\<lparr>moment := Suc (moment s)\<rparr>)"
  | (ok) "i < bs" "cur < n"
      "launch_loop w i bs cur n wl s =
         launch_loop w (Suc i) bs (Suc cur) n (Suc wl)
           (s\<lparr>moment := Suc (moment s), launches := launches s @ [(cur, moment s)],
              active_workers := active_workers s + 1\<rparr>)"
proof (cases "i < bs \<and> cur < n")
  case False
  then show ?thesis using launch_loop_done [of i bs cur n w wl s] finished by blast
next
  case True
  show ?thesis
  proof (cases "task_allocated w cur \<and> thread_created w cur")
    case ok': True
    with True show ?thesis using launch_loop_ok [of i bs cur n w wl s] ok by blast
  next
    case False
    with True have "launch_loop w i bs cur n wl s =
         launch_loop w (Suc i) bs (Suc cur) n wl (s\<lparr>moment := Suc (moment s)\<rparr>)"
      using launch_loop_skip [of i bs cur n w wl s] launch_loop_fail [of i bs cur n w wl s]
      by blast
    with True show ?thesis using skip by blast
  qed
qed

lemma launch_loop_counter:
  "active_workers (snd (snd (launch_loop w i bs cur n wl s))) + int wl =
     active_workers s + int (fst (snd (launch_loop w i bs cur n wl s)))
   \<and> checkpoints (snd (snd (launch_loop w i bs cur n wl s))) = checkpoints s"
proof (induction "bs - i" arbitrary: i cur wl s)
  case 0
  then have "\<not> (i < bs \<and> cur < n)" by simp
  then show ?case by (simp add: launch_loop_done)
next
  case (Suc k)
  show ?case
  proof (cases rule: launch_loop_cases [of i bs cur n w wl s])
    case finished
    then show ?thesis by simp
  next
    case skip
    from Suc.hyps(2) have "k = bs - Suc i" by simp
    from Suc.hyps(1) [OF this, of "Suc cur" wl "s\<lparr>moment := Suc (moment s)\<rparr>"]
    show ?thesis unfolding skip(3) by simp
  next
    case ok
    from Suc.hyps(2) have "k = bs - Suc i" by simp
    from Suc.hyps(1) [OF this, of "Suc cur" "Suc wl"
        "s\<lparr>moment := Suc (moment s), launches := launches s @ [(cur, moment s)],
            active_workers := active_workers s + 1\<rparr>"]
    show ?thesis unfolding ok(3) by simp
  qed
qed

lemma launch_loop_launches:
  "\<exists>new. launches (snd (snd (launch_loop w i bs cur n wl s))) = launches s @ new
     \<and> (\<forall>(u, t) \<in> set new. moment s \<le> t \<and> t < moment s + (bs - i))
   \<and> moment s \<le> moment (snd (snd (launch_loop w i bs cur n wl s)))"
proof (induction "bs - i" arbitrary: i cur wl s)
  case 0
  then have "\<not> (i < bs \<and> cur < n)" by simp
  then show ?case by (simp add: launch_loop_done)
next
  case (Suc k)
  show ?case
  proof (cases rule: launch_loop_cases [of i bs cur n w wl s])
    case finished
    then show ?thesis by simp
  next
    case skip
    from Suc.hyps(2) have k: "k = bs - Suc i" by simp
    let ?s = "s\<lparr>moment := Suc (moment s)\<rparr>"
    from Suc.hyps(1) [OF k, of "Suc cur" wl ?s] obtain new where
      n: "launches (snd (snd (launch_loop w (Suc i) bs (Suc cur) n wl ?s))) = launches s @ new"
      "\<forall>(u, t) \<in> set new. Suc (moment s) \<le> t \<and> t < Suc (moment s) + (bs - Suc i)"
      "Suc (moment s) \<le> moment (snd (snd (launch_loop w (Suc i) bs (Suc cur) n wl ?s)))"
      by auto
    from n(2) skip(1) have "\<forall>(u, t) \<in> set new. moment s \<le> t \<and> t < moment s + (bs - i)"
      by fastforce
    with n(1,3) show ?thesis unfolding skip(3) by auto
  next
    case ok
    from Suc.hyps(2) have k: "k = bs - Suc i" by simp
    let ?s = "s\<lparr>moment := Suc (moment s), launches := launches s @ [(cur, moment s)],
            active_workers := active_workers s + 1\<rparr>"
    from Suc.hyps(1) [OF k, of "Suc cur" "Suc wl" ?s] obtain new where
      n: "launches (snd (snd (launch_loop w (Suc i) bs (Suc cur) n (Suc wl) ?s))) =
          launches s @ (cur, moment s) # new"
      "\<forall>(u, t) \<in> set new. Suc (moment s) \<le> t \<and> t < Suc (moment s) + (bs - Suc i)"
      "Suc (moment s) \<le> moment (snd (snd (launch_loop w (Suc i) bs (Suc cur) n (Suc wl) ?s)))"
      by auto
    from n(2) ok(1) have "\<forall>(u, t) \<in> set ((cur, moment s) # new).
        moment s \<le> t \<and> t < moment s + (bs - i)"
      by fastforce
    with n(1,3) ok(1) show ?thesis
      unfolding ok(3) by (intro exI [of _ "(cur, moment s) # new"]) auto
  qed
qed

lemma launch_loop_ignores_flag:
  "launch_loop (w\<lparr>flag_at := f\<rparr>) i bs cur n wl s = launch_loop w i bs cur n wl s"
proof (induction "bs - i" arbitrary: i cur wl s)
  case 0
  then have "\<not> (i < bs \<and> cur < n)" by simp
  then show ?case by (simp add: launch_loop_done)
next
  case (Suc k)
  from Suc.hyps(2) have k: "k = bs - Suc i" by simp
  note ih = Suc.hyps(1) [OF k]
  consider (finished) "\<not> (i < bs \<and> cur < n)"
    | (skip) "i < bs" "cur < n" "\<not> task_allocated w cur"
    | (ok) "i < bs" "cur < n" "task_allocated w cur" "thread_created w cur"
    | (fail) "i < bs" "cur < n" "task_allocated w cur" "\<not> thread_created w cur"
    by blast
  then show ?case
  proof cases
    case finished
    then show ?thesis by (simp add: launch_loop_done)
  next
    case skip
    then show ?thesis by (simp add: launch_loop_skip ih)
  next
    case ok
    then show ?thesis by (simp add: launch_loop_ok ih)
  next
    case fail
    then show ?thesis by (simp add: launch_loop_fail ih)
  qed
qed


lemma batch_loop_stop:
  "\<not> current_url_index < url_count \<Longrightarrow> batch_loop w current_url_index url_count s = s"
  by (subst batch_loop.simps) simp

lemma batch_loop_shutdown:
  "current_url_index < url_count \<Longrightarrow> \<not> flag_at w (moment s) \<Longrightarrow>
   batch_loop w current_url_index url_count s = s\<lparr>moment := moment s + 1\<rparr>"
  by (subst batch_loop.simps) simp

lemma batch_loop_batch:
  "current_url_index < url_count \<Longrightarrow> flag_at w (moment s) \<Longrightarrow>
   batch_loop w current_url_index url_count s =
     (let batch = one_batch w current_url_index url_count (s\<lparr>moment := moment s + 1\<rparr>)
      in if \<not> flag_at w (moment (snd batch))
         then (snd batch)\<lparr>moment := moment (snd batch) + 1\<rparr>
         else batch_loop w (fst batch) url_count
                ((snd batch)\<lparr>moment := moment (snd batch) + 1\<rparr>))"
  by (subst batch_loop.simps) (simp add: Let_def)

lemma one_batch_effect:
  "active_workers (snd (one_batch w cur n s)) = active_workers s"
  "checkpoints (snd (one_batch w cur n s)) = checkpoints s"
  "moment s < moment (snd (one_batch w cur n s))"
  "\<exists>new. launches (snd (one_batch w cur n s)) = launches s @ new
     \<and> (\<forall>(u, t) \<in> set new. moment s \<le> t \<and> t < moment s + CONCURRENT_DOWNLOADS)"
proof -
  let ?bs = "min CONCURRENT_DOWNLOADS (n - cur)"
  from launch_loop_counter [of w 0 ?bs cur n 0 s]
  show "active_workers (snd (one_batch w cur n s)) = active_workers s"
    and "checkpoints (snd (one_batch w cur n s)) = checkpoints s"
    by (simp_all add: one_batch_def Let_def join_workers_def)
  from launch_loop_launches [of w 0 ?bs cur n 0 s] obtain new where
    n: "launches (snd (snd (launch_loop w 0 ?bs cur n 0 s))) = launches s @ new"
    "\<forall>(u, t) \<in> set new. moment s \<le> t \<and> t < moment s + ?bs"
    "moment s \<le> moment (snd (snd (launch_loop w 0 ?bs cur n 0 s)))"
    by auto
  from n(3) show "moment s < moment (snd (one_batch w cur n s))"
    by (simp add: one_batch_def Let_def join_workers_def)
  from n(2) have "\<forall>(u, t) \<in> set new. moment s \<le> t \<and> t < moment s + CONCURRENT_DOWNLOADS"
    by fastforce
  with n(1) show "\<exists>new. launches (snd (one_batch w cur n s)) = launches s @ new
     \<and> (\<forall>(u, t) \<in> set new. moment s \<le> t \<and> t < moment s + CONCURRENT_DOWNLOADS)"
    by (simp add: one_batch_def Let_def join_workers_def)
qed

lemma tick_launched:
  "launched_in_open_batch w (s\<lparr>moment := k\<rparr>) = launched_in_open_batch w s"
  by (simp add: launched_in_open_batch_iff)

lemma one_batch_launched:
  assumes "flag_at w (moment s)" and "launched_in_open_batch w s"
  shows "launched_in_open_batch w (snd (one_batch w cur n (s\<lparr>moment := moment s + 1\<rparr>)))"
proof -
  from one_batch_effect(4) [where w = w and cur = cur and n = n
      and s = "s\<lparr>moment := moment s + 1\<rparr>"] obtain new where
    n: "launches (snd (one_batch w cur n (s\<lparr>moment := moment s + 1\<rparr>))) = launches s @ new"
    "\<forall>(u, t) \<in> set new. moment s + 1 \<le> t \<and> t < moment s + 1 + CONCURRENT_DOWNLOADS"
    by auto
  have "\<exists>p < t. flag_at w p \<and> t \<le> p + CONCURRENT_DOWNLOADS" if "(u, t) \<in> set new" for u t
  proof (intro exI [of _ "moment s"] conjI)
    from n(2) that have b: "moment s + 1 \<le> t" "t < moment s + 1 + CONCURRENT_DOWNLOADS" by auto
    then show "moment s < t" by simp
    from b show "t \<le> moment s + CONCURRENT_DOWNLOADS" by simp
    show "flag_at w (moment s)" by (rule assms(1))
  qed
  then have "list_all (\<lambda>(url, t). \<exists>p < t. flag_at w p \<and> t \<le> p + CONCURRENT_DOWNLOADS) new"
    unfolding list_all_iff by blast
  with assms(2) n(1) show ?thesis
    by (simp add: launched_in_open_batch_iff)
qed

lemma batch_loop_effect:
  "active_workers (batch_loop w cur n s) = active_workers s
   \<and> checkpoints (batch_loop w cur n s) = checkpoints s
   \<and> moment s \<le> moment (batch_loop w cur n s)
   \<and> (launched_in_open_batch w s \<longrightarrow> launched_in_open_batch w (batch_loop w cur n s))"
proof (induction w cur n s rule: batch_loop.induct)
  case (1 w cur n s)
  consider (stop) "\<not> cur < n" | (down) "cur < n" "\<not> flag_at w (moment s)"
    | (batch) "cur < n" "flag_at w (moment s)"
    by blast
  then show ?case
  proof cases
    case stop
    then show ?thesis by (simp add: batch_loop_stop)
  next
    case down
    then show ?thesis by (simp add: batch_loop_shutdown tick_launched)
  next
    case batch
    define b where "b = one_batch w cur n (s\<lparr>moment := moment s + 1\<rparr>)"
    note e = one_batch_effect [where w = w and cur = cur and n = n
        and s = "s\<lparr>moment := moment s + 1\<rparr>", folded b_def]
    note l = one_batch_launched [OF batch(2), where cur = cur and n = n, folded b_def]
    show ?thesis
    proof (cases "flag_at w (moment (snd b))")
      case False
      with batch have "batch_loop w cur n s = (snd b)\<lparr>moment := moment (snd b) + 1\<rparr>"
        by (simp add: batch_loop_batch Let_def b_def)
      with e l show ?thesis by (simp add: tick_launched)
    next
      case True
      let ?s = "(snd b)\<lparr>moment := moment (snd b) + 1\<rparr>"
      from True batch have r: "batch_loop w cur n s = batch_loop w (fst b) n ?s"
        by (simp add: batch_loop_batch Let_def b_def)
      have ih: "active_workers (batch_loop w (fst b) n ?s) = active_workers ?s
          \<and> checkpoints (batch_loop w (fst b) n ?s) = checkpoints ?s
          \<and> moment ?s \<le> moment (batch_loop w (fst b) n ?s)
          \<and> (launched_in_open_batch w ?s \<longrightarrow>
              launched_in_open_batch w (batch_loop w (fst b) n ?s))"
        using True by (intro "1.IH" [OF batch(1,2) b_def refl]) simp
      from ih e l show ?thesis unfolding r by (simp add: tick_launched)
    qed
  qed
qed


lemma pause_loop_effect:
  "active_workers (pause_loop w k s) = active_workers s
   \<and> checkpoints (pause_loop w k s) = checkpoints s
   \<and> launches (pause_loop w k s) = launches s
   \<and> moment s \<le> moment (pause_loop w k s)
   \<and> (0 < k \<longrightarrow> moment s < moment (pause_loop w k s))"
proof (induction k arbitrary: s)
  case 0
  then show ?case by simp
next
  case (Suc k)
  from Suc [of "s\<lparr>moment := moment s + 2\<rparr>"] show ?case by auto
qed

lemma write_checkpoint_effect:
  "active_workers (write_checkpoint s) = active_workers s"
  "launches (write_checkpoint s) = launches s"
  "moment (write_checkpoint s) = moment s + 1"
  "checkpoints (write_checkpoint s) = checkpoints s @ [moment s]"
  by (simp_all add: write_checkpoint_def)

text \<open>The state at the end of a cycle, as the loop computes it.\<close>

lemma cycle_body_effect:
  fixes w n s
  defines "s1 \<equiv> batch_loop w 0 n (s\<lparr>moment := moment s + 1\<rparr>)"
  defines "s2 \<equiv> (if save_due w (moment s1) then write_checkpoint s1 else s1)"
  defines "s3 \<equiv> pause_loop w 8 s2"
  shows "active_workers s3 = active_workers s"
    and "moment s < moment s3"
    and "launched_in_open_batch w s \<Longrightarrow> launched_in_open_batch w s3"
    and "prefix (checkpoints s) (checkpoints s3)"
proof -
  note b = batch_loop_effect [of w 0 n "s\<lparr>moment := moment s + 1\<rparr>", folded s1_def]
  note p = pause_loop_effect [of w 8 s2, folded s3_def]
  have a2: "active_workers s2 = active_workers s1" "launches s2 = launches s1"
    "moment s1 \<le> moment s2" "prefix (checkpoints s1) (checkpoints s2)"
    by (simp_all add: s2_def write_checkpoint_effect)
  from b p a2 show "active_workers s3 = active_workers s" by simp
  from b p a2 show "moment s < moment s3" by simp
  from b p a2 show "prefix (checkpoints s) (checkpoints s3)" by simp
  assume "launched_in_open_batch w s"
  with b have "launched_in_open_batch w s1" by (simp add: tick_launched)
  with a2(2) p show "launched_in_open_batch w s3"
    by (simp add: launched_in_open_batch_iff)
qed

lemma cycle_loop_step:
  "flag_at w (moment s) \<Longrightarrow>
   cycle_loop w n s =
     cycle_loop w n
       (pause_loop w 8
          (if save_due w (moment (batch_loop w 0 n (s\<lparr>moment := moment s + 1\<rparr>)))
           then write_checkpoint (batch_loop w 0 n (s\<lparr>moment := moment s + 1\<rparr>))
           else batch_loop w 0 n (s\<lparr>moment := moment s + 1\<rparr>)))"
  by (subst cycle_loop.simps) (simp add: Let_def)

lemma cycle_loop_end:
  "\<not> flag_at w (moment s) \<Longrightarrow> cycle_loop w n s = Some (s\<lparr>moment := moment s + 1\<rparr>)"
  by (subst cycle_loop.simps) simp

lemma cycle_loop_invariant:
  assumes run: "cycle_loop w n s = Some s'"
  shows "active_workers s' = active_workers s
    \<and> (launched_in_open_batch w s \<longrightarrow> launched_in_open_batch w s')
    \<and> prefix (checkpoints s) (checkpoints s')"
proof -
  let ?P = "\<lambda>w (n :: nat) s s'. active_workers s' = active_workers s
    \<and> (launched_in_open_batch w s \<longrightarrow> launched_in_open_batch w s')
    \<and> prefix (checkpoints s) (checkpoints s')"
  show "?P w n s s'"
  proof (rule cycle_loop.raw_induct [where P = ?P, OF _ run], goal_cases)
    case (1 loop w n s s')
    note ih = "1"(1) and body = "1"(2)
    show ?case
    proof (cases "flag_at w (moment s)")
      case False
      with body have "s' = s\<lparr>moment := moment s + 1\<rparr>" by simp
      then show ?thesis by (simp add: tick_launched)
    next
      case True
      define s3 where "s3 = pause_loop w 8
          (if save_due w (moment (batch_loop w 0 n (s\<lparr>moment := moment s + 1\<rparr>)))
           then write_checkpoint (batch_loop w 0 n (s\<lparr>moment := moment s + 1\<rparr>))
           else batch_loop w 0 n (s\<lparr>moment := moment s + 1\<rparr>))"
      from True body have "loop w n s3 = Some s'"
        by (simp only: Let_def s3_def if_True)
      from ih [OF this] cycle_body_effect [where w = w and n = n and s = s, folded s3_def]
      show ?thesis by (auto intro: prefix_order.trans)
    qed
  qed
qed

lemma cycle_loop_total:
  assumes "\<forall>t \<ge> T. \<not> flag_at w t"
  shows "\<exists>s'. cycle_loop w n s = Some s'"
proof (induction "T - moment s" arbitrary: s rule: less_induct)
  case less
  show ?case
  proof (cases "flag_at w (moment s)")
    case False
    then show ?thesis by (simp add: cycle_loop_end)
  next
    case True
    with assms have lt: "moment s < T" by (meson not_le)
    define s3 where "s3 = pause_loop w 8
        (if save_due w (moment (batch_loop w 0 n (s\<lparr>moment := moment s + 1\<rparr>)))
         then write_checkpoint (batch_loop w 0 n (s\<lparr>moment := moment s + 1\<rparr>))
         else batch_loop w 0 n (s\<lparr>moment := moment s + 1\<rparr>))"
    from cycle_body_effect(2) [where w = w and n = n and s = s, folded s3_def] lt have "T - moment s3 < T - moment s"
      by simp
    from less [OF this] True show ?thesis
      by (simp add: cycle_loop_step [of w s n] s3_def split del: if_split)
  qed
qed

lemma wait_loop_idle: "\<not> active_workers s > 0 \<Longrightarrow> wait_loop k s = s"
  by (subst wait_loop.simps) simp

lemma wait_loop_effect:
  "active_workers (wait_loop k s) = active_workers s
   \<and> launches (wait_loop k s) = launches s
   \<and> checkpoints (wait_loop k s) = checkpoints s
   \<and> moment s \<le> moment (wait_loop k s)
   \<and> moment (wait_loop k s) \<le> moment s + (30 - k)"
proof (induction k s rule: wait_loop.induct)
  case (1 k s)
  show ?case
  proof (cases "active_workers s > 0 \<and> k < 30")
    case True
    with "1.IH" show ?thesis
      by (subst (1 2 3 4 5) wait_loop.simps) auto
  next
    case False
    then show ?thesis
      by (subst (1 2 3 4 5) wait_loop.simps) auto
  qed
qed

lemma main_run_exit:
  assumes run: "main_run w n = Some s'"
  shows "launched_in_open_batch w s' \<and> active_workers s' = 0
    \<and> checkpoints s' \<noteq> [] \<and> last (checkpoints s') + 1 = moment s'"
proof -
  let ?a = "write_checkpoint initial_scheduler"
  from run obtain s1 where c: "cycle_loop w n ?a = Some s1"
    and s': "s' = cleanup_resources s1"
    by (auto simp: main_run_def autonomous_operation_def split: option.splits)
  have "launched_in_open_batch w ?a" "active_workers ?a = 0"
    by (simp_all add: launched_in_open_batch_def write_checkpoint_def initial_scheduler_def)
  with cycle_loop_invariant [OF c]
  have s1: "launched_in_open_batch w s1" "active_workers s1 = 0" by simp_all
  then have "wait_loop 0 s1 = s1" by (simp add: wait_loop_idle)
  with s' have "s' = write_checkpoint s1" by (simp add: cleanup_resources_def)
  with s1 show ?thesis
    by (simp add: write_checkpoint_def launched_in_open_batch_def)
qed

lemma main_run_total:
  assumes "\<forall>t \<ge> T. \<not> flag_at w t"
  shows "\<exists>s'. main_run w n = Some s'"
proof -
  from cycle_loop_total [OF assms]
  obtain s1 where "cycle_loop w n (write_checkpoint initial_scheduler) = Some s1" by blast
  then show ?thesis by (simp add: main_run_def autonomous_operation_def)
qed

lemma url_worker_cleared: "url_worker False x = False \<and> url_worker x False = False"
  by (simp add: url_worker_def)

lemma wait_loop_bound: "moment (wait_loop 0 s) \<le> moment s + 30"
  using wait_loop_effect [of 0 s] by simp

lemma batch_loop_no_new_batch:
  "\<not> flag_at w (moment s) \<Longrightarrow> launches (batch_loop w cur n s) = launches s"
  by (cases "cur < n") (simp_all add: batch_loop_shutdown batch_loop_stop)

text \<open>
  Claim C9, as stated: after the shutdown flag is set no new fetch task is started, the
  batch loop and the per-batch launch loop both checking the flag before they launch
  further work. The launch loop does not look at the flag. With three URLs and the flag
  cleared at moment 3, right after the batch loop has found it set, the three workers of
  the batch are created at moments 3, 4 and 5.
\<close>

theorem launches_after_shutdown_counterexample:
  "main_run interrupted 3 =
     Some \<lparr>moment = 11, launches = [(0, 3), (1, 4), (2, 5)], active_workers = 0,
           checkpoints = [0, 10]\<rparr>
   \<and> flag_at interrupted 3 = False
   \<and> launched_while_active interrupted
        \<lparr>moment = 11, launches = [(0, 3), (1, 4), (2, 5)], active_workers = 0,
         checkpoints = [0, 10]\<rparr> = False"
  by code_simp

text \<open>
  Claim C9, amended. After the shutdown flag is set, no new batch of fetch tasks is
  started: the batch loop checks the flag before each batch and after joining it, and
  when it finds the flag cleared it launches nothing. The per-batch launch loop does not
  check the flag (it runs the same whatever the flag is), so the workers of a batch
  already begun are still created, each within \<open>CONCURRENT_DOWNLOADS\<close> steps of a
  moment at which the flag was set; a worker that reads the flag cleared, in
  \<open>url_worker\<close> or at the start of \<open>fetch_url_content\<close>, makes no request. Once the flag
  stays cleared the run ends, and whenever it ends every worker launched has been joined,
  the active-worker counter is zero, and the checkpoint written by \<open>cleanup_resources\<close>
  is its last step; the wait of \<open>cleanup_resources\<close> for the counter takes at most 30
  seconds.
\<close>

theorem shutdown_starts_no_new_batch:
  "((\<forall>t \<ge> T. \<not> flag_at w t) \<longrightarrow> (\<exists>s'. main_run w n = Some s'))
   \<and> (main_run w n = Some s' \<longrightarrow>
        launched_in_open_batch w s' \<and> active_workers s' = 0
        \<and> checkpoints s' \<noteq> [] \<and> last (checkpoints s') + 1 = moment s')
   \<and> (\<not> flag_at w (moment s) \<longrightarrow> launches (batch_loop w cur n s) = launches s)
   \<and> launch_loop (w\<lparr>flag_at := f\<rparr>) i batch_size cur n launched s
        = launch_loop w i batch_size cur n launched s
   \<and> url_worker False x = False \<and> url_worker x False = False
   \<and> moment (wait_loop 0 s) \<le> moment s + 30"
proof (intro conjI impI)
  assume "\<forall>t \<ge> T. \<not> flag_at w t"
  then show "\<exists>s'. main_run w n = Some s'" by (rule main_run_total)
next
  assume run: "main_run w n = Some s'"
  from main_run_exit [OF run] show "launched_in_open_batch w s'" by simp
  from main_run_exit [OF run] show "active_workers s' = 0" by simp
  from main_run_exit [OF run] show "checkpoints s' \<noteq> []" by simp
  from main_run_exit [OF run] show "last (checkpoints s') + 1 = moment s'" by simp
next
  assume "\<not> flag_at w (moment s)"
  then show "launches (batch_loop w cur n s) = launches s" by (rule batch_loop_no_new_batch)
next
  show "launch_loop (w\<lparr>flag_at := f\<rparr>) i batch_size cur n launched s
        = launch_loop w i batch_size cur n launched s"
    by (rule launch_loop_ignores_flag)
next
  show "url_worker False x = False" "url_worker x False = False"
    by (simp_all add: url_worker_def)
next
  show "moment (wait_loop 0 s) \<le> moment s + 30" by (rule wait_loop_bound)
qed

theorem shutdown_starts_no_new_batch_witness:
  "main_run interrupted 3 =
     Some \<lparr>moment = 11, launches = [(0, 3), (1, 4), (2, 5)], active_workers = 0,
           checkpoints = [0, 10]\<rparr>
   \<and> launched_in_open_batch interrupted
        \<lparr>moment = 11, launches = [(0, 3), (1, 4), (2, 5)], active_workers = 0,
         checkpoints = [0, 10]\<rparr>
   \<and> last [0, 10] + 1 = (11 :: nat)
   \<and> flag_at interrupted 7 = False
   \<and> launches (batch_loop interrupted 0 3
        \<lparr>moment = 7, launches = [(0, 3), (1, 4), (2, 5)], active_workers = 0,
         checkpoints = [0]\<rparr>) = [(0, 3), (1, 4), (2, 5)]
   \<and> launch_loop (interrupted\<lparr>flag_at := \<lambda>t. True\<rparr>) 0 3 0 3 0
        \<lparr>moment = 3, launches = [], active_workers = 0, checkpoints = [0]\<rparr>
      = launch_loop interrupted 0 3 0 3 0
        \<lparr>moment = 3, launches = [], active_workers = 0, checkpoints = [0]\<rparr>
   \<and> url_worker False True = False
   \<and> moment (wait_loop 0
        \<lparr>moment = 3, launches = [], active_workers = 2, checkpoints = [0]\<rparr>) \<le> 33"
proof -
  let ?e = "\<lparr>moment = 11, launches = [(0, 3), (1, 4), (2, 5)], active_workers = 0,
           checkpoints = [0, 10 :: nat]\<rparr>"
  let ?d = "\<lparr>moment = 7, launches = [(0, 3), (1, 4), (2, 5)], active_workers = 0,
         checkpoints = [0 :: nat]\<rparr>"
  let ?a = "\<lparr>moment = 3, launches = [], active_workers = 0, checkpoints = [0 :: nat]\<rparr>"
  let ?b = "\<lparr>moment = 3, launches = [], active_workers = 2, checkpoints = [0 :: nat]\<rparr>"
  have cleared: "\<forall>t \<ge> 3. \<not> flag_at interrupted t" by (simp add: interrupted_def)
  have run: "main_run interrupted 3 = Some ?e" by code_simp
  have off: "\<not> flag_at interrupted (moment ?d)" by (simp add: interrupted_def)
  note t1 = shutdown_starts_no_new_batch
    [where T = 3 and w = interrupted and n = 3 and s' = ?e and s = ?d and cur = 0
       and f = "\<lambda>t. True" and i = 0 and batch_size = 3 and launched = 0 and x = True]
  note t2 = shutdown_starts_no_new_batch
    [where T = 3 and w = interrupted and n = 3 and s' = ?e and s = ?a and cur = 0
       and f = "\<lambda>t. True" and i = 0 and batch_size = 3 and launched = 0 and x = True]
  note t3 = shutdown_starts_no_new_batch
    [where T = 3 and w = interrupted and n = 3 and s' = ?e and s = ?b and cur = 0
       and f = "\<lambda>t. True" and i = 0 and batch_size = 3 and launched = 0 and x = True]
  from t1 cleared run off
  have a: "launched_in_open_batch interrupted ?e \<and> last (checkpoints ?e) + 1 = moment ?e
    \<and> launches (batch_loop interrupted 0 3 ?d) = launches ?d"
    by blast
  from t2 have b: "launch_loop (interrupted\<lparr>flag_at := \<lambda>t. True\<rparr>) 0 3 0 3 0 ?a
      = launch_loop interrupted 0 3 0 3 0 ?a \<and> url_worker False True = False"
    by blast
  from t3 have c: "moment (wait_loop 0 ?b) \<le> moment ?b + 30" by blast
  from a b c run off show ?thesis by simp
qed
end
